theory Spec2Isabelle
  imports Main "HOL-Library.Word" "HOL-Library.Extended_Nat" "HOL-Library.Sublist"
begin

unbundle bit_operations_syntax

section \<open>Reactivity: deps, effects, track and trigger\<close>

text \<open>
  The reactivity runtime (dep.ts and effect.ts) keeps a heap of \<open>Dep\<close> objects, each
  a JavaScript \<open>Set\<close> of effects with two marker bitfields, and a table of effects.
  A \<open>Set\<close> is modelled as a duplicate-free list in insertion order, the marker
  bitfields as 32-bit words (JavaScript's bitwise operators work on 32-bit integers),
  and object identity by an index into the heap.
\<close>

type_synonym eid = nat
type_synonym did = nat
type_synonym tid = nat

record dep =
  subs :: "eid list"
  w :: "32 word"
  n :: "32 word"

record reactive_effect =
  active :: bool
  deps :: "did list"
  allowRecurse :: bool
  has_scheduler :: bool

text \<open>Property keys: \<open>'length'\<close>, canonical array indices (\<open>isIntegerKey\<close>), other
  strings, user symbols, and the two iteration symbols of effect.ts.\<close>

datatype pkey = KLength | KIndex nat | KProp string | KSymbol nat | KIterate | KMapKeyIterate

datatype tkind = TArray | TMap | TOther

datatype TriggerOpTypes = SET | ADD | DELETE | CLEAR

datatype js_error = TypeError | RangeError | Error string

text \<open>JavaScript values, as far as the runtime tells them apart: primitives, and
  references to ref objects, plain objects and proxies.\<close>

datatype jsval = VUndefined | VNull | VBool bool | VNum int | VNaN | VStr string
  | VRef nat | VObj nat | VProxy nat

text \<open>A \<open>ComputedRefImpl\<close> of computed.ts: the cached \<open>_value\<close>, the \<open>_dirty\<close> flag and
  the effect that wraps the getter. Its \<open>dep\<close> field is the \<open>refDeps\<close> entry of its identity.\<close>

record computed_ref =
  c_value :: jsval
  c_dirty :: bool
  c_effect :: eid

record rstate =
  depStore :: "did \<Rightarrow> dep"
  nextDep :: did
  effs :: "eid \<Rightarrow> reactive_effect"
  targetMap :: "tid \<Rightarrow> (pkey \<times> did) list option"
  effectStack :: "eid list"
  activeEffect :: "eid option"
  shouldTrack :: bool
  trackStack :: "bool list"
  effectTrackDepth :: nat
  trackOpBit :: "32 word"
  refDeps :: "nat \<Rightarrow> did option"
  comps :: "nat \<Rightarrow> computed_ref"
  fnCalls :: "eid \<Rightarrow> nat"

definition maxMarkerBits :: nat where
  "maxMarkerBits = 30"

text \<open>\<open>Set.prototype.add\<close> and \<open>delete\<close> on the insertion-ordered list.\<close>

definition set_add :: "'a \<Rightarrow> 'a list \<Rightarrow> 'a list" where
  "set_add x xs = (if x \<in> set xs then xs else xs @ [x])"

definition set_delete :: "'a \<Rightarrow> 'a list \<Rightarrow> 'a list" where
  "set_delete x xs = filter (\<lambda>y. y \<noteq> x) xs"

text \<open>\<open>new Set(effects)\<close>: the elements in order of first occurrence.\<close>

definition set_of_array :: "'a list \<Rightarrow> 'a list" where
  "set_of_array xs = foldl (\<lambda>acc x. set_add x acc) [] xs"

definition createDep :: "eid list \<Rightarrow> dep" where
  "createDep effects = \<lparr>subs = set_of_array effects, w = 0, n = 0\<rparr>"

text \<open>\<open>1 << k\<close> on 32-bit integers: the shift count is taken modulo 32.\<close>

definition shl1 :: "nat \<Rightarrow> 32 word" where
  "shl1 k = push_bit (k mod 32) 1"

definition wasTracked :: "rstate \<Rightarrow> dep \<Rightarrow> bool" where
  "wasTracked st d = (0 < sint (w d AND trackOpBit st))"

definition newTracked :: "rstate \<Rightarrow> dep \<Rightarrow> bool" where
  "newTracked st d = (0 < sint (n d AND trackOpBit st))"

subsection \<open>track, trackEffects and the markers of dep.ts\<close>

text \<open>
  The two stacks of effect.ts (\<open>effectStack\<close>, \<open>trackStack\<close>) are lists whose head is the
  top. \<open>fnCalls\<close> is not a field of the source: it counts, per effect, how often \<open>run\<close>
  has invoked the effect's function, so that "the effect re-runs" can be stated.
  \<open>refDeps\<close> holds the \<open>dep\<close> field of each ref object.
\<close>

definition pauseTracking :: "rstate \<Rightarrow> rstate" where
  "pauseTracking st = st\<lparr>trackStack := shouldTrack st # trackStack st, shouldTrack := False\<rparr>"

definition enableTracking :: "rstate \<Rightarrow> rstate" where
  "enableTracking st = st\<lparr>trackStack := shouldTrack st # trackStack st, shouldTrack := True\<rparr>"

definition resetTracking :: "rstate \<Rightarrow> rstate" where
  "resetTracking st =
     (case trackStack st of
        [] \<Rightarrow> st\<lparr>shouldTrack := True\<rparr>
      | b # rest \<Rightarrow> st\<lparr>trackStack := rest, shouldTrack := b\<rparr>)"

definition isTracking :: "rstate \<Rightarrow> bool" where
  "isTracking st = (shouldTrack st \<and> activeEffect st \<noteq> None)"

definition upd_dep :: "did \<Rightarrow> (dep \<Rightarrow> dep) \<Rightarrow> rstate \<Rightarrow> rstate" where
  "upd_dep d f st = st\<lparr>depStore := (depStore st)(d := f (depStore st d))\<rparr>"

definition upd_effect :: "eid \<Rightarrow> (reactive_effect \<Rightarrow> reactive_effect) \<Rightarrow> rstate \<Rightarrow> rstate" where
  "upd_effect e f st = st\<lparr>effs := (effs st)(e := f (effs st e))\<rparr>"

text \<open>\<open>dep.add(activeEffect)\<close> and \<open>activeEffect.deps.push(dep)\<close>.\<close>

definition add_edge :: "eid \<Rightarrow> did \<Rightarrow> rstate \<Rightarrow> rstate" where
  "add_edge e d st =
     upd_effect e (\<lambda>x. x\<lparr>deps := deps x @ [d]\<rparr>) (upd_dep d (\<lambda>x. x\<lparr>subs := set_add e (subs x)\<rparr>) st)"

text \<open>\<open>trackEffects\<close> dereferences \<open>activeEffect\<close>; both callers (\<open>track\<close>,
  \<open>trackRefValue\<close>) test \<open>isTracking\<close> first, so the case of no active effect is not
  reached through them and is left as the identity.\<close>

definition trackEffects :: "did \<Rightarrow> rstate \<Rightarrow> rstate" where
  "trackEffects d st =
     (case activeEffect st of
        None \<Rightarrow> st
      | Some e \<Rightarrow>
          (if effectTrackDepth st \<le> maxMarkerBits
           then (if \<not> newTracked st (depStore st d)
                 then (let st1 = upd_dep d (\<lambda>x. x\<lparr>n := n x OR trackOpBit st\<rparr>) st
                       in if \<not> wasTracked st1 (depStore st1 d) then add_edge e d st1 else st1)
                 else st)
           else (if e \<notin> set (subs (depStore st d)) then add_edge e d st else st)))"

definition track :: "tid \<Rightarrow> pkey \<Rightarrow> rstate \<Rightarrow> rstate" where
  "track target key st =
     (if \<not> isTracking st then st
      else (let depsMap = (case targetMap st target of None \<Rightarrow> [] | Some m \<Rightarrow> m)
            in case map_of depsMap key of
                 Some d \<Rightarrow> trackEffects d (st\<lparr>targetMap := (targetMap st)(target \<mapsto> depsMap)\<rparr>)
               | None \<Rightarrow>
                   trackEffects (nextDep st)
                     (st\<lparr>targetMap := (targetMap st)(target \<mapsto> depsMap @ [(key, nextDep st)]),
                         depStore := (depStore st)(nextDep st := createDep []),
                         nextDep := Suc (nextDep st)\<rparr>)))"

definition trackRefValue :: "nat \<Rightarrow> rstate \<Rightarrow> rstate" where
  "trackRefValue r st =
     (if isTracking st
      then (case refDeps st r of
              Some d \<Rightarrow> trackEffects d st
            | None \<Rightarrow>
                trackEffects (nextDep st)
                  (st\<lparr>refDeps := (refDeps st)(r := Some (nextDep st)),
                      depStore := (depStore st)(nextDep st := createDep []),
                      nextDep := Suc (nextDep st)\<rparr>))
      else st)"

definition initDepMarkers :: "eid \<Rightarrow> rstate \<Rightarrow> rstate" where
  "initDepMarkers e st =
     fold (\<lambda>d s. upd_dep d (\<lambda>x. x\<lparr>w := w x OR trackOpBit st\<rparr>) s) (deps (effs st e)) st"

text \<open>The loop of \<open>finalizeDepMarkers\<close>: it returns the deps kept (the compacted prefix
  \<open>deps[0..ptr)\<close>) with the state.\<close>

fun finalize_loop :: "eid \<Rightarrow> did list \<Rightarrow> rstate \<Rightarrow> did list \<times> rstate" where
  "finalize_loop e [] st = ([], st)"
| "finalize_loop e (d # ds) st =
     (let stale = (wasTracked st (depStore st d) \<and> \<not> newTracked st (depStore st d));
          st1 = (if stale then upd_dep d (\<lambda>x. x\<lparr>subs := set_delete e (subs x)\<rparr>) st else st);
          st2 = upd_dep d (\<lambda>x. x\<lparr>w := w x AND NOT (trackOpBit st), n := n x AND NOT (trackOpBit st)\<rparr>) st1;
          (kept, st3) = finalize_loop e ds st2
      in (if stale then kept else d # kept, st3))"

definition finalizeDepMarkers :: "eid \<Rightarrow> rstate \<Rightarrow> rstate" where
  "finalizeDepMarkers e st =
     (if deps (effs st e) \<noteq> []
      then (let (kept, st') = finalize_loop e (deps (effs st e)) st
            in upd_effect e (\<lambda>x. x\<lparr>deps := kept\<rparr>) st')
      else st)"

definition cleanupEffect :: "eid \<Rightarrow> rstate \<Rightarrow> rstate" where
  "cleanupEffect e st =
     upd_effect e (\<lambda>x. x\<lparr>deps := []\<rparr>)
       (fold (\<lambda>d s. upd_dep d (\<lambda>x. x\<lparr>subs := set_delete e (subs x)\<rparr>) s) (deps (effs st e)) st)"

subsection \<open>ReactiveEffect.run\<close>

text \<open>
  A call into user code either returns a value or throws, and leaves a state; it may also
  not return at all, which is \<open>None\<close>. \<open>run\<close> takes the effect's function as such a
  call. Its \<open>finally\<close> block runs on a return and on a throw alike. When the effect is
  already on the stack the function is not invoked and \<open>run\<close> returns undefined.
\<close>

type_synonym 'a outcome = "(js_error + 'a) \<times> rstate"

definition count_call :: "eid \<Rightarrow> rstate \<Rightarrow> rstate" where
  "count_call e st = st\<lparr>fnCalls := (fnCalls st)(e := Suc (fnCalls st e))\<rparr>"

definition run_enter :: "eid \<Rightarrow> rstate \<Rightarrow> rstate" where
  "run_enter e st =
     (let st1 = enableTracking (st\<lparr>effectStack := e # effectStack st, activeEffect := Some e\<rparr>);
          st2 = st1\<lparr>effectTrackDepth := Suc (effectTrackDepth st1),
                    trackOpBit := shl1 (Suc (effectTrackDepth st1))\<rparr>
      in if effectTrackDepth st2 \<le> maxMarkerBits then initDepMarkers e st2 else cleanupEffect e st2)"

definition run_exit :: "eid \<Rightarrow> rstate \<Rightarrow> rstate" where
  "run_exit e st =
     (let st1 = (if effectTrackDepth st \<le> maxMarkerBits then finalizeDepMarkers e st else st);
          st2 = st1\<lparr>effectTrackDepth := effectTrackDepth st1 - 1,
                    trackOpBit := shl1 (effectTrackDepth st1 - 1)\<rparr>;
          st3 = resetTracking st2;
          st4 = st3\<lparr>effectStack := tl (effectStack st3)\<rparr>
      in st4\<lparr>activeEffect := (case effectStack st4 of [] \<Rightarrow> None | x # _ \<Rightarrow> Some x)\<rparr>)"

definition run :: "eid \<Rightarrow> (rstate \<Rightarrow> jsval outcome option) \<Rightarrow> rstate \<Rightarrow> jsval outcome option" where
  "run e fn st =
     (if \<not> active (effs st e) then fn (count_call e st)
      else if e \<notin> set (effectStack st)
      then (case fn (count_call e (run_enter e st)) of
              None \<Rightarrow> None
            | Some (r, st') \<Rightarrow> Some (r, run_exit e st'))
      else Some (Inr VUndefined, st))"

text \<open>\<open>stop\<close>, for an effect without an \<open>onStop\<close> hook.\<close>

definition stop :: "eid \<Rightarrow> rstate \<Rightarrow> rstate" where
  "stop e st =
     (if active (effs st e) then upd_effect e (\<lambda>x. x\<lparr>active := False\<rparr>) (cleanupEffect e st) else st)"

subsection \<open>trigger: collecting the deps and dispatching the effects\<close>

text \<open>
  \<open>trigger\<close> first collects the deps to notify. \<open>key_ge s len\<close> stands for the
  JavaScript comparison \<open>key >= newValue\<close> on a string key that is not a canonical
  index; on a symbol key the comparison throws a TypeError. An absent dep
  (\<open>depsMap.get\<close> returning undefined) is \<open>None\<close>.
\<close>

fun length_deps :: "(string \<Rightarrow> nat \<Rightarrow> bool) \<Rightarrow> nat \<Rightarrow> (pkey \<times> did) list \<Rightarrow> js_error + did option list" where
  "length_deps key_ge newLen [] = Inr []"
| "length_deps key_ge newLen ((k, d) # rest) =
     (case (case k of
              KLength \<Rightarrow> Inr True
            | KIndex i \<Rightarrow> Inr (newLen \<le> i)
            | KProp s \<Rightarrow> Inr (key_ge s newLen)
            | KSymbol _ \<Rightarrow> Inl TypeError
            | KIterate \<Rightarrow> Inl TypeError
            | KMapKeyIterate \<Rightarrow> Inl TypeError) of
        Inl e \<Rightarrow> Inl e
      | Inr hit \<Rightarrow>
          (case length_deps key_ge newLen rest of
             Inl e \<Rightarrow> Inl e
           | Inr ds \<Rightarrow> Inr (if hit then Some d # ds else ds)))"

definition collect_deps ::
  "(string \<Rightarrow> nat \<Rightarrow> bool) \<Rightarrow> (pkey \<times> did) list \<Rightarrow> tkind \<Rightarrow> TriggerOpTypes \<Rightarrow> pkey option \<Rightarrow> nat
     \<Rightarrow> js_error + did option list" where
  "collect_deps key_ge depsMap kind ty key newLen =
     (if ty = CLEAR then Inr (map (\<lambda>(k, d). Some d) depsMap)
      else if key = Some KLength \<and> kind = TArray then length_deps key_ge newLen depsMap
      else Inr
        ((case key of None \<Rightarrow> [] | Some k \<Rightarrow> [map_of depsMap k]) @
         (case ty of
            ADD \<Rightarrow>
              (if kind \<noteq> TArray
               then map_of depsMap KIterate #
                    (if kind = TMap then [map_of depsMap KMapKeyIterate] else [])
               else (case key of Some (KIndex i) \<Rightarrow> [map_of depsMap KLength] | _ \<Rightarrow> []))
          | DELETE \<Rightarrow>
              (if kind \<noteq> TArray
               then map_of depsMap KIterate #
                    (if kind = TMap then [map_of depsMap KMapKeyIterate] else [])
               else [])
          | SET \<Rightarrow> (if kind = TMap then [map_of depsMap KIterate] else [])
          | CLEAR \<Rightarrow> [])))"

text \<open>
  The array that \<open>trigger\<close> hands to the loop of \<open>triggerEffects\<close>: with exactly one
  collected dep, the spread of that dep (nothing when it is undefined); otherwise the
  spread of \<open>createDep(effects)\<close>, where \<open>effects\<close> concatenates the defined deps.
  \<open>None\<close> is the early return for a target that was never tracked.
\<close>

definition dep_effects :: "rstate \<Rightarrow> did option \<Rightarrow> eid list" where
  "dep_effects st d = (case d of None \<Rightarrow> [] | Some d' \<Rightarrow> subs (depStore st d'))"

definition trigger_effects_array ::
  "(string \<Rightarrow> nat \<Rightarrow> bool) \<Rightarrow> rstate \<Rightarrow> tid \<Rightarrow> tkind \<Rightarrow> TriggerOpTypes \<Rightarrow> pkey option \<Rightarrow> nat
     \<Rightarrow> js_error + eid list option" where
  "trigger_effects_array key_ge st target kind ty key newLen =
     (case targetMap st target of
        None \<Rightarrow> Inr None
      | Some depsMap \<Rightarrow>
          (case collect_deps key_ge depsMap kind ty key newLen of
             Inl e \<Rightarrow> Inl e
           | Inr ds \<Rightarrow>
               (if length ds = 1
                then (case hd ds of
                        None \<Rightarrow> Inr None
                      | Some d \<Rightarrow> Inr (Some (subs (depStore st d))))
                else Inr (Some (subs (createDep (concat (map (dep_effects st) ds))))))))"

text \<open>
  The loop of \<open>triggerEffects\<close>, for effects without the development-only debugger
  hooks. \<open>effect.scheduler()\<close> and \<open>effect.run()\<close> are calls into closures held by the
  effect: \<open>call\<close> is what such a call does. The loop has no handler, so a call that
  throws ends it with the callees behind it not invoked. The function returns the
  invocations it made, in order, with the outcome.
\<close>

datatype dispatch = CallScheduler eid | CallRun eid

fun dispatched :: "dispatch \<Rightarrow> eid" where
  "dispatched (CallScheduler e) = e"
| "dispatched (CallRun e) = e"

type_synonym callee = "dispatch \<Rightarrow> rstate \<Rightarrow> jsval outcome option"

fun triggerEffects :: "callee \<Rightarrow> eid list \<Rightarrow> rstate \<Rightarrow> (dispatch list \<times> unit outcome) option" where
  "triggerEffects call [] st = Some ([], Inr (), st)"
| "triggerEffects call (e # es) st =
     (if Some e \<noteq> activeEffect st \<or> allowRecurse (effs st e)
      then (let d = (if has_scheduler (effs st e) then CallScheduler e else CallRun e)
            in case call d st of
                 None \<Rightarrow> None
               | Some (Inl err, st') \<Rightarrow> Some ([d], Inl err, st')
               | Some (Inr v, st') \<Rightarrow>
                   (case triggerEffects call es st' of
                      None \<Rightarrow> None
                    | Some (ds, r) \<Rightarrow> Some (d # ds, r)))
      else triggerEffects call es st)"

definition trigger ::
  "(string \<Rightarrow> nat \<Rightarrow> bool) \<Rightarrow> callee \<Rightarrow> tid \<Rightarrow> tkind \<Rightarrow> TriggerOpTypes
     \<Rightarrow> pkey option \<Rightarrow> nat \<Rightarrow> rstate \<Rightarrow> (dispatch list \<times> unit outcome) option" where
  "trigger key_ge call target kind ty key newLen st =
     (case trigger_effects_array key_ge st target kind ty key newLen of
        Inl e \<Rightarrow> Some ([], Inl e, st)
      | Inr None \<Rightarrow> Some ([], Inr (), st)
      | Inr (Some es) \<Rightarrow> triggerEffects call es st)"

text \<open>\<open>triggerRefValue\<close> of ref.ts.\<close>

definition triggerRefValue :: "callee \<Rightarrow> nat \<Rightarrow> rstate \<Rightarrow> (dispatch list \<times> unit outcome) option" where
  "triggerRefValue call r st =
     (case refDeps st r of
        None \<Rightarrow> Some ([], Inr (), st)
      | Some d \<Rightarrow> triggerEffects call (subs (depStore st d)) st)"

text \<open>The test of the loop, and the invocation it chooses, read in a given state.\<close>

definition may_run :: "rstate \<Rightarrow> eid \<Rightarrow> bool" where
  "may_run st e = (Some e \<noteq> activeEffect st \<or> allowRecurse (effs st e))"

definition dispatch_of :: "rstate \<Rightarrow> eid \<Rightarrow> dispatch" where
  "dispatch_of st e = (if has_scheduler (effs st e) then CallScheduler e else CallRun e)"

text \<open>
  Invoking a list of callees in order, up to the first that throws or does not return:
  what "each of these effects is dispatched, once, in this order" means.
\<close>

fun dispatch_seq :: "callee \<Rightarrow> dispatch list \<Rightarrow> rstate \<Rightarrow> (dispatch list \<times> unit outcome) option" where
  "dispatch_seq call [] st = Some ([], Inr (), st)"
| "dispatch_seq call (d # ds) st =
     (case call d st of
        None \<Rightarrow> None
      | Some (Inl err, st') \<Rightarrow> Some ([d], Inl err, st')
      | Some (Inr v, st') \<Rightarrow>
          (case dispatch_seq call ds st' of
             None \<Rightarrow> None
           | Some (ds', r) \<Rightarrow> Some (d # ds', r)))"

subsection \<open>The closures of the effects\<close>

text \<open>
  \<open>activeEffect\<close> and \<open>effectStack\<close> are private to effect.ts and written by \<open>run\<close> only,
  which keeps the first the top of the second. The \<open>allowRecurse\<close> and \<open>scheduler\<close>
  fields are set when an effect is created. A call that returns leaves them as they were.
\<close>

definition stack_ok :: "rstate \<Rightarrow> bool" where
  "stack_ok st = (activeEffect st = (case effectStack st of [] \<Rightarrow> None | x # _ \<Rightarrow> Some x))"

definition same_frame :: "rstate \<Rightarrow> rstate \<Rightarrow> bool" where
  "same_frame st st' =
     (effectStack st' = effectStack st \<and> activeEffect st' = activeEffect st \<and>
      (\<forall>e. allowRecurse (effs st' e) = allowRecurse (effs st e) \<and>
           has_scheduler (effs st' e) = has_scheduler (effs st e)))"

definition callee_ok :: "callee \<Rightarrow> bool" where
  "callee_ok call =
     (\<forall>d st r st'. stack_ok st \<longrightarrow> call d st = Some (r, st') \<longrightarrow> same_frame st st')"

text \<open>
  User code (an effect's \<open>fn\<close>, a scheduler) is given the runtime it calls back into.
  \<open>rcall\<close> is the callee of the running system: \<open>effect.run()\<close> is \<open>run\<close> on the effect's
  \<open>fn\<close>, \<open>effect.scheduler()\<close> the effect's scheduler. The fuel bounds the nesting of
  such calls; \<open>None\<close> is a nesting that does not end within it.
\<close>

type_synonym ucode = "callee \<Rightarrow> rstate \<Rightarrow> jsval outcome option"

record env =
  fn_of :: "eid \<Rightarrow> ucode"
  sched_of :: "eid \<Rightarrow> ucode"

primrec rcall :: "nat \<Rightarrow> env \<Rightarrow> callee" where
  "rcall 0 env = (\<lambda>d st. None)"
| "rcall (Suc k) env =
     (\<lambda>d st. case d of
                CallRun e \<Rightarrow> run e (fn_of env e (rcall k env)) st
              | CallScheduler e \<Rightarrow> sched_of env e (rcall k env) st)"

definition ucode_ok :: "ucode \<Rightarrow> bool" where
  "ucode_ok code =
     (\<forall>call st r st'. callee_ok call \<longrightarrow> stack_ok st \<longrightarrow> code call st = Some (r, st') \<longrightarrow>
        same_frame st st')"

definition env_ok :: "env \<Rightarrow> bool" where
  "env_ok env = (\<forall>e. ucode_ok (fn_of env e) \<and> ucode_ok (sched_of env e))"


subsection \<open>Reactive slots\<close>

text \<open>
  A reactive slot is a property of a target or the value of a ref. A tracked read of a
  slot is \<open>track\<close> or \<open>trackRefValue\<close>; the trigger that a plain assignment to a slot
  fires is \<open>SET\<close> on a property of an ordinary object, or \<open>triggerRefValue\<close> on a ref.
\<close>

datatype slot = PropSlot tid pkey | RefSlot nat

definition slot_dep :: "rstate \<Rightarrow> slot \<Rightarrow> did option" where
  "slot_dep st s =
     (case s of
        PropSlot t k \<Rightarrow> (case targetMap st t of None \<Rightarrow> None | Some m \<Rightarrow> map_of m k)
      | RefSlot r \<Rightarrow> refDeps st r)"

definition track_slot :: "slot \<Rightarrow> rstate \<Rightarrow> rstate" where
  "track_slot s st = (case s of PropSlot t k \<Rightarrow> track t k st | RefSlot r \<Rightarrow> trackRefValue r st)"

definition trigger_slot ::
  "(string \<Rightarrow> nat \<Rightarrow> bool) \<Rightarrow> callee \<Rightarrow> slot \<Rightarrow> rstate \<Rightarrow> (dispatch list \<times> unit outcome) option" where
  "trigger_slot key_ge call s st =
     (case s of
        PropSlot t k \<Rightarrow> trigger key_ge call t TOther SET (Some k) 0 st
      | RefSlot r \<Rightarrow> triggerRefValue call r st)"

definition subscribed :: "rstate \<Rightarrow> eid \<Rightarrow> slot \<Rightarrow> bool" where
  "subscribed st e s =
     (case slot_dep st s of None \<Rightarrow> False | Some d \<Rightarrow> e \<in> set (subs (depStore st d)))"

text \<open>User code that performs tracked reads and returns a value; user code that assigns
  to a slot; and a void call seen as a call that returns undefined.\<close>

definition reader :: "slot list \<Rightarrow> jsval \<Rightarrow> ucode" where
  "reader slots v call st = Some (Inr v, fold track_slot slots st)"

definition returning_undefined :: "(dispatch list \<times> unit outcome) option \<Rightarrow> jsval outcome option" where
  "returning_undefined x =
     (case x of
        None \<Rightarrow> None
      | Some (ds, Inl err, st) \<Rightarrow> Some (Inl err, st)
      | Some (ds, Inr u, st) \<Rightarrow> Some (Inr VUndefined, st))"

definition writer :: "(string \<Rightarrow> nat \<Rightarrow> bool) \<Rightarrow> slot \<Rightarrow> ucode" where
  "writer key_ge s call st = returning_undefined (trigger_slot key_ge call s st)"

text \<open>A state for the examples: a Map target 0 whose key \<open>a\<close> has dep 0 = {1, 2} and
  whose iteration key has dep 1 = {2, 3}; effect 2 has a scheduler; effect 3 is running.
  Effect 1 reads a property of another target; the scheduler of effect 2 runs the
  effect at once, and its function reads nothing.\<close>

definition ex_dep :: "eid list \<Rightarrow> dep" where
  "ex_dep es = \<lparr>subs = es, w = 0, n = 0\<rparr>"

definition ex_effect :: "did list \<Rightarrow> bool \<Rightarrow> reactive_effect" where
  "ex_effect ds sch = \<lparr>active = True, deps = ds, allowRecurse = False, has_scheduler = sch\<rparr>"

definition trigger_example :: rstate where
  "trigger_example =
     \<lparr>depStore = (\<lambda>d. if d = 0 then ex_dep [1, 2] else if d = 1 then ex_dep [2, 3] else ex_dep []),
      nextDep = 2,
      effs = (\<lambda>e. if e = 1 then ex_effect [0] False else if e = 2 then ex_effect [0, 1] True
                   else if e = 3 then ex_effect [1] False else ex_effect [] False),
      targetMap = (\<lambda>t. if t = 0 then Some [(KProp ''a'', 0), (KIterate, 1)] else None),
      effectStack = [3], activeEffect = Some 3, shouldTrack = True, trackStack = [True],
      effectTrackDepth = 1, trackOpBit = 2, refDeps = (\<lambda>r. None),
      comps = (\<lambda>r. \<lparr>c_value = VUndefined, c_dirty = True, c_effect = 0\<rparr>),
      fnCalls = (\<lambda>e. 0)\<rparr>"

definition env_example :: env where
  "env_example =
     \<lparr>fn_of = (\<lambda>e. if e = 1 then reader [PropSlot 1 (KProp ''x'')] (VNum 1) else reader [] VUndefined),
      sched_of = (\<lambda>e call st. call (CallRun e) st)\<rparr>"

subsection \<open>Facts about the Set model\<close>

lemma set_add_set: "set (set_add x xs) = insert x (set xs)"
  by (auto simp: set_add_def)

lemma set_add_distinct: "distinct xs \<Longrightarrow> distinct (set_add x xs)"
  by (auto simp: set_add_def)

lemma foldl_set_add: "set (foldl (\<lambda>acc x. set_add x acc) acc xs) = set acc \<union> set xs"
  by (induction xs arbitrary: acc) (auto simp: set_add_set)

lemma foldl_set_add_distinct:
  "distinct acc \<Longrightarrow> distinct (foldl (\<lambda>acc x. set_add x acc) acc xs)"
  by (induction xs arbitrary: acc) (auto simp: set_add_distinct)

lemma set_of_array_set: "set (set_of_array xs) = set xs"
  by (simp add: set_of_array_def foldl_set_add)

lemma set_of_array_distinct: "distinct (set_of_array xs)"
  by (simp add: set_of_array_def foldl_set_add_distinct)

lemma set_delete_set: "set (set_delete x xs) = set xs - {x}"
  by (auto simp: set_delete_def)

lemma set_delete_distinct: "distinct xs \<Longrightarrow> distinct (set_delete x xs)"
  by (simp add: set_delete_def)

lemma dispatched_dispatch_of: "dispatched (dispatch_of st e) = e"
  by (simp add: dispatch_of_def)

lemma map_dispatched_dispatch_of: "map dispatched (map (dispatch_of st) es) = es"
  by (induction es) (simp_all add: dispatched_dispatch_of)


subsection \<open>What each step of the runtime leaves alone\<close>

lemma upd_dep_fields [simp]:
  "depStore (upd_dep d f st) = (depStore st)(d := f (depStore st d))"
  "effs (upd_dep d f st) = effs st"
  "nextDep (upd_dep d f st) = nextDep st"
  "targetMap (upd_dep d f st) = targetMap st"
  "effectStack (upd_dep d f st) = effectStack st"
  "activeEffect (upd_dep d f st) = activeEffect st"
  "shouldTrack (upd_dep d f st) = shouldTrack st"
  "trackStack (upd_dep d f st) = trackStack st"
  "effectTrackDepth (upd_dep d f st) = effectTrackDepth st"
  "trackOpBit (upd_dep d f st) = trackOpBit st"
  "refDeps (upd_dep d f st) = refDeps st"
  "comps (upd_dep d f st) = comps st"
  "fnCalls (upd_dep d f st) = fnCalls st"
  by (simp_all add: upd_dep_def)

lemma upd_effect_fields [simp]:
  "depStore (upd_effect e f st) = depStore st"
  "effs (upd_effect e f st) = (effs st)(e := f (effs st e))"
  "nextDep (upd_effect e f st) = nextDep st"
  "targetMap (upd_effect e f st) = targetMap st"
  "effectStack (upd_effect e f st) = effectStack st"
  "activeEffect (upd_effect e f st) = activeEffect st"
  "shouldTrack (upd_effect e f st) = shouldTrack st"
  "trackStack (upd_effect e f st) = trackStack st"
  "effectTrackDepth (upd_effect e f st) = effectTrackDepth st"
  "trackOpBit (upd_effect e f st) = trackOpBit st"
  "refDeps (upd_effect e f st) = refDeps st"
  "comps (upd_effect e f st) = comps st"
  "fnCalls (upd_effect e f st) = fnCalls st"
  by (simp_all add: upd_effect_def)

lemma slot_dep_upd [simp]:
  "slot_dep (upd_dep d f st) = slot_dep st"
  "slot_dep (upd_effect e g st) = slot_dep st"
  by (simp_all add: slot_dep_def fun_eq_iff split: slot.splits)

text \<open>Allocating the dep of a slot that has none.\<close>

definition alloc_slot :: "slot \<Rightarrow> rstate \<Rightarrow> rstate" where
  "alloc_slot s st =
     (case s of
        PropSlot t k \<Rightarrow>
          st\<lparr>targetMap := (targetMap st)(t \<mapsto> (case targetMap st t of None \<Rightarrow> [] | Some m \<Rightarrow> m) @ [(k, nextDep st)]),
             depStore := (depStore st)(nextDep st := createDep []),
             nextDep := Suc (nextDep st)\<rparr>
      | RefSlot r \<Rightarrow>
          st\<lparr>refDeps := (refDeps st)(r := Some (nextDep st)),
             depStore := (depStore st)(nextDep st := createDep []),
             nextDep := Suc (nextDep st)\<rparr>)"

lemma alloc_slot_fields:
  "depStore (alloc_slot s st) = (depStore st)(nextDep st := createDep [])"
  "nextDep (alloc_slot s st) = Suc (nextDep st)"
  "effs (alloc_slot s st) = effs st"
  "activeEffect (alloc_slot s st) = activeEffect st"
  "shouldTrack (alloc_slot s st) = shouldTrack st"
  "effectTrackDepth (alloc_slot s st) = effectTrackDepth st"
  "trackOpBit (alloc_slot s st) = trackOpBit st"
  "effectStack (alloc_slot s st) = effectStack st"
  "trackStack (alloc_slot s st) = trackStack st"
  "fnCalls (alloc_slot s st) = fnCalls st"
  "comps (alloc_slot s st) = comps st"
  by (simp_all add: alloc_slot_def split: slot.splits)

lemma alloc_slot_dep:
  assumes "slot_dep st s = None"
  shows "slot_dep (alloc_slot s st) s' = (if s' = s then Some (nextDep st) else slot_dep st s')"
proof (cases s)
  case (PropSlot t k)
  then show ?thesis
    using assms
    by (cases s') (auto simp: slot_dep_def alloc_slot_def map_add_def split: option.splits)
next
  case (RefSlot r)
  then show ?thesis
    using assms by (cases s') (auto simp: slot_dep_def alloc_slot_def)
qed

lemma track_slot_unfold:
  assumes "activeEffect st = Some e" "shouldTrack st"
  shows "track_slot s st =
     (case slot_dep st s of
        Some d \<Rightarrow> trackEffects d st
      | None \<Rightarrow> trackEffects (nextDep st) (alloc_slot s st))"
proof (cases s)
  case (PropSlot t k)
  show ?thesis
  proof (cases "targetMap st t")
    case None
    then show ?thesis
      using assms PropSlot
      by (simp add: track_slot_def track_def isTracking_def slot_dep_def alloc_slot_def)
  next
    case (Some m)
    then have "(targetMap st)(t \<mapsto> m) = targetMap st" by auto
    then show ?thesis
      using assms PropSlot Some
      by (simp add: track_slot_def track_def isTracking_def slot_dep_def alloc_slot_def
          split: option.splits)
  qed
next
  case (RefSlot r)
  then show ?thesis
    using assms
    by (simp add: track_slot_def trackRefValue_def isTracking_def slot_dep_def alloc_slot_def
        split: option.splits)
qed

text \<open>What tracking never touches: the stacks, the activation pointer, the call counters, the
  computed refs and the effects' flags.\<close>

definition ctl_eq :: "rstate \<Rightarrow> rstate \<Rightarrow> bool" where
  "ctl_eq st st' =
     (effectStack st' = effectStack st \<and> activeEffect st' = activeEffect st \<and>
      trackStack st' = trackStack st \<and> fnCalls st' = fnCalls st \<and> comps st' = comps st \<and>
      (\<forall>x. active (effs st' x) = active (effs st x) \<and>
           allowRecurse (effs st' x) = allowRecurse (effs st x) \<and>
           has_scheduler (effs st' x) = has_scheduler (effs st x)))"

lemma ctl_eq_refl: "ctl_eq st st"
  by (simp add: ctl_eq_def)

lemma ctl_eq_trans: "ctl_eq a b \<Longrightarrow> ctl_eq b c \<Longrightarrow> ctl_eq a c"
  by (simp add: ctl_eq_def)

lemma trackEffects_ctl: "ctl_eq st (trackEffects d st)"
  by (simp add: ctl_eq_def trackEffects_def add_edge_def Let_def split: option.splits)

lemma alloc_slot_ctl: "ctl_eq st (alloc_slot s st)"
  by (simp add: ctl_eq_def alloc_slot_def split: slot.splits)

lemma track_slot_ctl: "ctl_eq st (track_slot s st)"
proof (cases "isTracking st")
  case True
  then obtain e where a: "activeEffect st = Some e" "shouldTrack st"
    by (auto simp: isTracking_def)
  show ?thesis
    unfolding track_slot_unfold [OF a]
    using trackEffects_ctl ctl_eq_trans [OF alloc_slot_ctl trackEffects_ctl]
    by (simp split: option.splits)
next
  case False
  then show ?thesis
    by (cases s) (simp_all add: track_slot_def track_def trackRefValue_def ctl_eq_refl)
qed

lemma reads_ctl: "ctl_eq st (fold track_slot slots st)"
proof (induction slots arbitrary: st)
  case Nil
  show ?case by (simp add: ctl_eq_refl)
next
  case (Cons s slots)
  show ?case
    using ctl_eq_trans [OF track_slot_ctl Cons.IH] by simp
qed

lemma trackRefValue_ctl: "ctl_eq st (trackRefValue r st)"
  using track_slot_ctl [of st "RefSlot r"] by (simp add: track_slot_def)

text \<open>initDepMarkers, field by field.\<close>

lemma fold_upd_dep_other:
  "effs (fold (\<lambda>d s. upd_dep d (f d) s) ds st) = effs st \<and>
   nextDep (fold (\<lambda>d s. upd_dep d (f d) s) ds st) = nextDep st \<and>
   targetMap (fold (\<lambda>d s. upd_dep d (f d) s) ds st) = targetMap st \<and>
   refDeps (fold (\<lambda>d s. upd_dep d (f d) s) ds st) = refDeps st \<and>
   effectStack (fold (\<lambda>d s. upd_dep d (f d) s) ds st) = effectStack st \<and>
   activeEffect (fold (\<lambda>d s. upd_dep d (f d) s) ds st) = activeEffect st \<and>
   shouldTrack (fold (\<lambda>d s. upd_dep d (f d) s) ds st) = shouldTrack st \<and>
   trackStack (fold (\<lambda>d s. upd_dep d (f d) s) ds st) = trackStack st \<and>
   effectTrackDepth (fold (\<lambda>d s. upd_dep d (f d) s) ds st) = effectTrackDepth st \<and>
   trackOpBit (fold (\<lambda>d s. upd_dep d (f d) s) ds st) = trackOpBit st \<and>
   fnCalls (fold (\<lambda>d s. upd_dep d (f d) s) ds st) = fnCalls st \<and>
   comps (fold (\<lambda>d s. upd_dep d (f d) s) ds st) = comps st"
  by (induction ds arbitrary: st) simp_all

lemma fold_upd_dep_store:
  "distinct ds \<Longrightarrow>
   depStore (fold (\<lambda>d s. upd_dep d (f d) s) ds st) d =
     (if d \<in> set ds then f d (depStore st d) else depStore st d)"
  by (induction ds arbitrary: st) auto

lemma slot_dep_cong:
  "targetMap st' = targetMap st \<Longrightarrow> refDeps st' = refDeps st \<Longrightarrow> slot_dep st' = slot_dep st"
  by (rule ext) (auto simp: slot_dep_def split: slot.splits)

lemma resetTracking_fields:
  "depStore (resetTracking st) = depStore st"
  "effs (resetTracking st) = effs st"
  "nextDep (resetTracking st) = nextDep st"
  "targetMap (resetTracking st) = targetMap st"
  "refDeps (resetTracking st) = refDeps st"
  "effectStack (resetTracking st) = effectStack st"
  "activeEffect (resetTracking st) = activeEffect st"
  "effectTrackDepth (resetTracking st) = effectTrackDepth st"
  "trackOpBit (resetTracking st) = trackOpBit st"
  "fnCalls (resetTracking st) = fnCalls st"
  "comps (resetTracking st) = comps st"
  by (simp_all add: resetTracking_def split: list.splits)

lemma finalize_loop_ctl:
  "effectStack (snd (finalize_loop e ds st)) = effectStack st \<and>
   activeEffect (snd (finalize_loop e ds st)) = activeEffect st \<and>
   fnCalls (snd (finalize_loop e ds st)) = fnCalls st \<and>
   comps (snd (finalize_loop e ds st)) = comps st \<and>
   effs (snd (finalize_loop e ds st)) = effs st \<and>
   trackStack (snd (finalize_loop e ds st)) = trackStack st \<and>
   effectTrackDepth (snd (finalize_loop e ds st)) = effectTrackDepth st"
  by (induction ds arbitrary: st) (simp_all add: Let_def case_prod_beta)

lemma finalizeDepMarkers_ctl:
  "effectStack (finalizeDepMarkers e st) = effectStack st \<and>
   fnCalls (finalizeDepMarkers e st) = fnCalls st \<and>
   comps (finalizeDepMarkers e st) = comps st \<and>
   effectTrackDepth (finalizeDepMarkers e st) = effectTrackDepth st \<and>
   (\<forall>x. active (effs (finalizeDepMarkers e st) x) = active (effs st x) \<and>
        allowRecurse (effs (finalizeDepMarkers e st) x) = allowRecurse (effs st x) \<and>
        has_scheduler (effs (finalizeDepMarkers e st) x) = has_scheduler (effs st x))"
  using finalize_loop_ctl [of e "deps (effs st e)" st]
  by (simp add: finalizeDepMarkers_def case_prod_beta)

lemma run_exit_ctl:
  "effectStack (run_exit e st) = tl (effectStack st) \<and>
   activeEffect (run_exit e st) = (case tl (effectStack st) of [] \<Rightarrow> None | x # _ \<Rightarrow> Some x) \<and>
   fnCalls (run_exit e st) = fnCalls st \<and> comps (run_exit e st) = comps st \<and>
   (\<forall>x. active (effs (run_exit e st) x) = active (effs st x) \<and>
        allowRecurse (effs (run_exit e st) x) = allowRecurse (effs st x) \<and>
        has_scheduler (effs (run_exit e st) x) = has_scheduler (effs st x))"
  by (simp add: run_exit_def Let_def resetTracking_fields finalizeDepMarkers_ctl)

lemma run_enter_ctl:
  "effectStack (run_enter e st) = e # effectStack st \<and>
   activeEffect (run_enter e st) = Some e \<and>
   shouldTrack (run_enter e st) \<and>
   fnCalls (run_enter e st) = fnCalls st \<and> comps (run_enter e st) = comps st \<and>
   (\<forall>x. active (effs (run_enter e st) x) = active (effs st x) \<and>
        allowRecurse (effs (run_enter e st) x) = allowRecurse (effs st x) \<and>
        has_scheduler (effs (run_enter e st) x) = has_scheduler (effs st x))"
  by (simp add: run_enter_def Let_def initDepMarkers_def cleanupEffect_def fold_upd_dep_other
      enableTracking_def)

subsection \<open>Calls that return leave the activation frame as it was\<close>

lemma same_frame_refl: "same_frame st st"
  by (simp add: same_frame_def)

lemma same_frame_trans: "same_frame a b \<Longrightarrow> same_frame b c \<Longrightarrow> same_frame a c"
  by (simp add: same_frame_def)

lemma same_frame_stack_ok: "stack_ok st \<Longrightarrow> same_frame st st' \<Longrightarrow> stack_ok st'"
  by (simp add: same_frame_def stack_ok_def)

lemma same_frame_may_run: "same_frame st st' \<Longrightarrow> may_run st' = may_run st"
  by (auto simp: same_frame_def may_run_def fun_eq_iff)

lemma same_frame_dispatch_of: "same_frame st st' \<Longrightarrow> dispatch_of st' = dispatch_of st"
  by (auto simp: same_frame_def dispatch_of_def fun_eq_iff)

lemma ctl_eq_same_frame: "ctl_eq st st' \<Longrightarrow> same_frame st st'"
  by (simp add: ctl_eq_def same_frame_def)

lemma callee_okD:
  "callee_ok call \<Longrightarrow> stack_ok st \<Longrightarrow> call d st = Some (r, st') \<Longrightarrow> same_frame st st'"
  unfolding callee_ok_def by blast

lemma ucode_okD:
  "ucode_ok code \<Longrightarrow> callee_ok call \<Longrightarrow> stack_ok st \<Longrightarrow> code call st = Some (r, st') \<Longrightarrow>
   same_frame st st'"
  unfolding ucode_ok_def by blast

lemma run_frame:
  assumes fn: "\<And>s r s'. stack_ok s \<Longrightarrow> fn s = Some (r, s') \<Longrightarrow> same_frame s s'"
    and ok: "stack_ok st" and r: "run e fn st = Some (r, st')"
  shows "same_frame st st'"
proof (cases "active (effs st e)")
  case False
  then have a: "fn (count_call e st) = Some (r, st')"
    using r by (simp add: run_def)
  have "stack_ok (count_call e st)"
    using ok by (simp add: stack_ok_def count_call_def)
  from fn [OF this a] show ?thesis
    by (simp add: same_frame_def count_call_def)
next
  case True
  show ?thesis
  proof (cases "e \<in> set (effectStack st)")
    case True
    then show ?thesis
      using r \<open>active (effs st e)\<close> by (simp add: run_def same_frame_refl)
  next
    case False
    define sa where "sa = count_call e (run_enter e st)"
    obtain sb where b: "fn sa = Some (r, sb)" and st': "st' = run_exit e sb"
      using r True False by (auto simp: run_def sa_def split: option.splits)
    have sa: "effectStack sa = e # effectStack st" "activeEffect sa = Some e"
      "\<And>x. allowRecurse (effs sa x) = allowRecurse (effs st x)"
      "\<And>x. has_scheduler (effs sa x) = has_scheduler (effs st x)"
      by (simp_all add: sa_def count_call_def run_enter_ctl)
    then have "stack_ok sa"
      by (simp add: stack_ok_def)
    from fn [OF this b] have sb: "same_frame sa sb" .
    show ?thesis
      using sa sb ok unfolding st'
      by (simp add: same_frame_def run_exit_ctl stack_ok_def)
  qed
qed

lemma rcall_ok:
  assumes "env_ok env"
  shows "callee_ok (rcall k env)"
proof (induction k)
  case 0
  show ?case by (simp add: callee_ok_def)
next
  case (Suc k)
  show ?case
    unfolding callee_ok_def
  proof (intro allI impI)
    fix d st r st'
    assume ok: "stack_ok st" and c: "rcall (Suc k) env d st = Some (r, st')"
    show "same_frame st st'"
    proof (cases d)
      case (CallRun e)
      have "ucode_ok (fn_of env e)"
        using assms by (simp add: env_ok_def)
      then have f: "\<And>s r s'. stack_ok s \<Longrightarrow> fn_of env e (rcall k env) s = Some (r, s') \<Longrightarrow> same_frame s s'"
        using Suc by (rule ucode_okD)
      have "run e (fn_of env e (rcall k env)) st = Some (r, st')"
        using c CallRun by simp
      with f ok show ?thesis
        by (rule run_frame)
    next
      case (CallScheduler e)
      have u: "ucode_ok (sched_of env e)"
        using assms by (simp add: env_ok_def)
      have "sched_of env e (rcall k env) st = Some (r, st')"
        using c CallScheduler by simp
      with u Suc ok show ?thesis
        by (rule ucode_okD)
    qed
  qed
qed

lemma triggerEffects_plan:
  assumes "callee_ok call"
  shows "stack_ok st \<Longrightarrow> same_frame st0 st \<Longrightarrow>
         triggerEffects call es st =
           dispatch_seq call (map (dispatch_of st0) (filter (may_run st0) es)) st"
proof (induction es arbitrary: st)
  case Nil
  show ?case by simp
next
  case (Cons e es)
  have m: "may_run st e = may_run st0 e" and d: "dispatch_of st e = dispatch_of st0 e"
    using same_frame_may_run [OF Cons.prems(2)] same_frame_dispatch_of [OF Cons.prems(2)]
    by simp_all
  show ?case
  proof (cases "may_run st0 e")
    case False
    then show ?thesis
      using m Cons.IH [OF Cons.prems] by (simp add: may_run_def)
  next
    case True
    have t: "triggerEffects call (e # es) st =
        (case call (dispatch_of st0 e) st of
           None \<Rightarrow> None
         | Some (Inl err, st') \<Rightarrow> Some ([dispatch_of st0 e], Inl err, st')
         | Some (Inr v, st') \<Rightarrow>
             (case triggerEffects call es st' of
                None \<Rightarrow> None
              | Some (ds, r) \<Rightarrow> Some (dispatch_of st0 e # ds, r)))"
      unfolding triggerEffects.simps dispatch_of_def [symmetric] Let_def d
      using True m by (simp add: may_run_def)
    show ?thesis
    proof (cases "call (dispatch_of st0 e) st")
      case None
      then show ?thesis using True t by simp
    next
      case (Some x)
      obtain res st' where x: "x = (res, st')" by (cases x)
      have f: "same_frame st st'"
        using assms Cons.prems(1) Some unfolding x by (rule callee_okD)
      have "triggerEffects call es st' =
          dispatch_seq call (map (dispatch_of st0) (filter (may_run st0) es)) st'"
        using same_frame_stack_ok [OF Cons.prems(1) f] same_frame_trans [OF Cons.prems(2) f]
        by (rule Cons.IH)
      then show ?thesis
        using True t Some x by (cases res) simp_all
    qed
  qed
qed

lemma dispatch_seq_result:
  assumes "callee_ok call"
  shows "stack_ok st \<Longrightarrow> dispatch_seq call ds st = Some (ds', r, st') \<Longrightarrow>
         prefix ds' ds \<and> same_frame st st' \<and> (r = Inr () \<longrightarrow> ds' = ds)"
proof (induction ds arbitrary: st ds')
  case Nil
  then show ?case by (simp add: same_frame_refl)
next
  case (Cons d ds)
  show ?case
  proof (cases "call d st")
    case None
    then show ?thesis using Cons.prems by simp
  next
    case (Some x)
    obtain res s1 where x: "x = (res, s1)" by (cases x)
    have f: "same_frame st s1"
      using assms Cons.prems(1) Some unfolding x by (rule callee_okD)
    show ?thesis
    proof (cases res)
      case (Inl err)
      then show ?thesis using Cons.prems Some x f by auto
    next
      case (Inr v)
      then obtain ds1 where a: "dispatch_seq call ds s1 = Some (ds1, r, st')" and b: "ds' = d # ds1"
        using Cons.prems(2) Some x by (auto split: option.splits)
      from Cons.IH [OF same_frame_stack_ok [OF Cons.prems(1) f] a]
      show ?thesis
        using b f by (auto intro: same_frame_trans)
    qed
  qed
qed

lemma trigger_effects_array_Some:
  assumes "\<And>d. distinct (subs (depStore st d))"
    and "targetMap st target = Some depsMap"
    and "collect_deps key_ge depsMap kind ty key newLen = Inr cds"
  shows "(\<exists>es. trigger_effects_array key_ge st target kind ty key newLen = Inr (Some es) \<and>
            distinct es \<and> set es = (\<Union>d\<in>set cds. set (dep_effects st d))) \<or>
         (trigger_effects_array key_ge st target kind ty key newLen = Inr None \<and>
            (\<Union>d\<in>set cds. set (dep_effects st d)) = {})"
proof (cases "length cds = 1")
  case True
  then obtain c where c: "cds = [c]"
    by (cases cds) auto
  show ?thesis
  proof (cases c)
    case None
    then show ?thesis
      using assms c by (simp add: trigger_effects_array_def dep_effects_def)
  next
    case (Some d)
    then show ?thesis
      using assms c by (simp add: trigger_effects_array_def dep_effects_def)
  qed
next
  case False
  then show ?thesis
    using assms
    by (simp add: trigger_effects_array_def createDep_def set_of_array_set set_of_array_distinct)
qed


lemma triggerEffects_frame:
  assumes "callee_ok call" and "stack_ok st" and "triggerEffects call es st = Some (ds, r, st')"
  shows "same_frame st st'"
  using dispatch_seq_result [OF assms(1,2)] assms(3)
  unfolding triggerEffects_plan [OF assms(1,2) same_frame_refl]
  by blast

lemma trigger_frame:
  assumes "callee_ok call" and "stack_ok st"
    and "trigger key_ge call target kind ty key newLen st = Some (ds, r, st')"
  shows "same_frame st st'"
proof (cases "trigger_effects_array key_ge st target kind ty key newLen")
  case (Inl err)
  then show ?thesis using assms(3) by (simp add: trigger_def same_frame_refl)
next
  case (Inr x)
  show ?thesis
  proof (cases x)
    case None
    then show ?thesis using assms(3) Inr by (simp add: trigger_def same_frame_refl)
  next
    case (Some es)
    then have "triggerEffects call es st = Some (ds, r, st')"
      using assms(3) Inr by (simp add: trigger_def)
    with assms(1,2) show ?thesis by (rule triggerEffects_frame)
  qed
qed

lemma triggerRefValue_frame:
  assumes "callee_ok call" and "stack_ok st" and "triggerRefValue call x st = Some (ds, r, st')"
  shows "same_frame st st'"
proof (cases "refDeps st x")
  case None
  then show ?thesis using assms(3) by (simp add: triggerRefValue_def same_frame_refl)
next
  case (Some d)
  then have "triggerEffects call (subs (depStore st d)) st = Some (ds, r, st')"
    using assms(3) by (simp add: triggerRefValue_def)
  with assms(1,2) show ?thesis by (rule triggerEffects_frame)
qed

lemma trigger_slot_frame:
  assumes "callee_ok call" and "stack_ok st" and "trigger_slot key_ge call s st = Some (ds, r, st')"
  shows "same_frame st st'"
  using assms trigger_frame triggerRefValue_frame
  by (cases s) (simp_all add: trigger_slot_def)

lemma returning_undefined_Some:
  "returning_undefined x = Some (r, st') \<Longrightarrow> \<exists>ds u. x = Some (ds, u, st')"
  by (auto simp: returning_undefined_def split: option.splits sum.splits)

lemma reader_ok: "ucode_ok (reader slots v)"
  unfolding ucode_ok_def reader_def
  using ctl_eq_same_frame [OF reads_ctl] by auto

lemma writer_ok: "ucode_ok (writer key_ge s)"
  unfolding ucode_ok_def writer_def
  using trigger_slot_frame by (blast dest: returning_undefined_Some)

lemma call_run_ok: "ucode_ok (\<lambda>call st. call (CallRun e) st)"
  unfolding ucode_ok_def by (blast intro: callee_okD)

lemma env_example_ok: "env_ok env_example"
  by (simp add: env_ok_def env_example_def reader_ok call_run_ok)

subsection \<open>The dispatch protocol of trigger\<close>

text \<open>
  Claim C4. Take a call of \<open>trigger\<close> on a tracked target whose dep collection
  succeeds, in a state where the activation pointer is the top of the effect stack, and
  callees that return with the activation frame as they found it (as the callee of the
  running system does). Let \<open>es\<close> be the effects of the collected deps that are not the
  running effect or have \<open>allowRecurse\<close> set, each once however many of the deps hold
  it. Then \<open>trigger\<close> is the invocation of these effects one after the other, each
  through its scheduler when it has one and through \<open>run\<close> otherwise, every invocation
  starting in the state the one before it left; it ends at the first invocation that
  throws or does not return. So the invocations made are a prefix of that list, all of
  it when \<open>trigger\<close> returns normally.
\<close>

theorem trigger_dispatch_protocol:
  assumes "callee_ok call" and "stack_ok st"
    and "\<And>d. distinct (subs (depStore st d))"
    and "targetMap st target = Some depsMap"
    and "collect_deps key_ge depsMap kind ty key newLen = Inr cds"
  shows "\<exists>es. distinct es \<and>
           set es = {e \<in> (\<Union>d\<in>set cds. set (dep_effects st d)). may_run st e} \<and>
           trigger key_ge call target kind ty key newLen st =
             dispatch_seq call (map (dispatch_of st) es) st \<and>
           (\<forall>ds r st'. trigger key_ge call target kind ty key newLen st = Some (ds, r, st') \<longrightarrow>
              prefix ds (map (dispatch_of st) es) \<and> distinct (map dispatched ds) \<and>
              same_frame st st' \<and> (r = Inr () \<longrightarrow> ds = map (dispatch_of st) es))"
proof -
  have res: "\<exists>es. distinct es \<and>
           set es = {e \<in> (\<Union>d\<in>set cds. set (dep_effects st d)). may_run st e} \<and>
           trigger key_ge call target kind ty key newLen st =
             dispatch_seq call (map (dispatch_of st) es) st"
  proof -
    from trigger_effects_array_Some [OF assms(3,4,5)]
    consider (some) es where
        "trigger_effects_array key_ge st target kind ty key newLen = Inr (Some es)"
        "distinct es" "set es = (\<Union>d\<in>set cds. set (dep_effects st d))"
      | (none) "trigger_effects_array key_ge st target kind ty key newLen = Inr None"
        "(\<Union>d\<in>set cds. set (dep_effects st d)) = {}"
      by blast
    then show ?thesis
    proof cases
      case some
      have "trigger key_ge call target kind ty key newLen st =
          dispatch_seq call (map (dispatch_of st) (filter (may_run st) es)) st"
        using some(1) triggerEffects_plan [OF assms(1,2) same_frame_refl, of es]
        by (simp add: trigger_def)
      moreover have "distinct (filter (may_run st) es)"
        using some(2) by simp
      moreover have "set (filter (may_run st) es) =
          {e \<in> (\<Union>d\<in>set cds. set (dep_effects st d)). may_run st e}"
        using some(3) by auto
      ultimately show ?thesis by blast
    next
      case none
      have "trigger key_ge call target kind ty key newLen st =
          dispatch_seq call (map (dispatch_of st) []) st"
        using none(1) by (simp add: trigger_def)
      moreover have "set [] = {e \<in> (\<Union>d\<in>set cds. set (dep_effects st d)). may_run st e}"
        using none(2) by simp
      ultimately show ?thesis by (intro exI [of _ "[]"]) simp
    qed
  qed
  then obtain es where es: "distinct es"
    "set es = {e \<in> (\<Union>d\<in>set cds. set (dep_effects st d)). may_run st e}"
    "trigger key_ge call target kind ty key newLen st =
       dispatch_seq call (map (dispatch_of st) es) st"
    by blast
  have "prefix ds (map (dispatch_of st) es) \<and> distinct (map dispatched ds) \<and>
        same_frame st st' \<and> (r = Inr () \<longrightarrow> ds = map (dispatch_of st) es)"
    if t: "trigger key_ge call target kind ty key newLen st = Some (ds, r, st')" for ds r st'
  proof -
    have d: "dispatch_seq call (map (dispatch_of st) es) st = Some (ds, r, st')"
      using t es(3) by simp
    note p = dispatch_seq_result [OF assms(1,2) d]
    then obtain zs where "map (dispatch_of st) es = ds @ zs"
      by (auto simp: prefix_def)
    then have "map dispatched ds @ map dispatched zs = es"
      using map_dispatched_dispatch_of [of st es] by (metis map_append)
    then have "distinct (map dispatched ds)"
      using es(1) by (metis distinct_append)
    with p show ?thesis by blast
  qed
  with es show ?thesis by blast
qed

theorem trigger_dispatch_protocol_witness:
  "callee_ok (rcall 3 env_example) \<and> stack_ok trigger_example \<and>
   targetMap trigger_example 0 = Some [(KProp ''a'', 0), (KIterate, 1)] \<and>
   collect_deps (\<lambda>s k. False) [(KProp ''a'', 0), (KIterate, 1)] TMap SET (Some (KProp ''a'')) 0
     = Inr [Some 0, Some 1] \<and>
   map_option (\<lambda>(ds, r, s). (ds, r, fnCalls s 1, fnCalls s 2, fnCalls s 3))
     (trigger (\<lambda>s k. False) (rcall 3 env_example) 0 TMap SET (Some (KProp ''a'')) 0 trigger_example)
     = Some ([CallRun 1, CallScheduler 2], Inr (), 1, 1, 0) \<and>
   (\<exists>es. distinct es \<and> set es = {1, 2} \<and>
      trigger (\<lambda>s k. False) (rcall 3 env_example) 0 TMap SET (Some (KProp ''a'')) 0 trigger_example
        = dispatch_seq (rcall 3 env_example) (map (dispatch_of trigger_example) es) trigger_example)"
proof -
  have k: "callee_ok (rcall 3 env_example)"
    by (rule rcall_ok [OF env_example_ok])
  have o: "stack_ok trigger_example"
    by (simp add: stack_ok_def trigger_example_def)
  have s: "\<And>d. distinct (subs (depStore trigger_example d))"
    by (simp add: trigger_example_def ex_dep_def)
  have t: "targetMap trigger_example 0 = Some [(KProp ''a'', 0), (KIterate, 1)]"
    by (simp add: trigger_example_def)
  have c: "collect_deps (\<lambda>s k. False) [(KProp ''a'', 0), (KIterate, 1)] TMap SET
             (Some (KProp ''a'')) 0 = Inr [Some 0, Some 1]"
    by (simp add: collect_deps_def)
  have r: "map_option (\<lambda>(ds, r, s). (ds, r, fnCalls s 1, fnCalls s 2, fnCalls s 3))
     (trigger (\<lambda>s k. False) (rcall 3 env_example) 0 TMap SET (Some (KProp ''a'')) 0 trigger_example)
     = Some ([CallRun 1, CallScheduler 2], Inr (), 1, 1, 0)"
    by code_simp
  have u: "{e \<in> (\<Union>d\<in>set [Some 0, Some 1]. set (dep_effects trigger_example d)).
             may_run trigger_example e} = {1, 2}"
    by (auto simp: dep_effects_def trigger_example_def ex_dep_def may_run_def ex_effect_def)
  from trigger_dispatch_protocol [OF k o s t c] k o t c r show ?thesis
    unfolding u by blast
qed


section \<open>Conditional dependency pruning\<close>

text \<open>
  Conditions on a state between runs: the two directions of every effect-dep edge agree
  and no effect lists a dep twice; every dep in use was allocated and no two slots share
  a dep; no marker bit is set above the current depth; the activation pointer is the top
  of the stack. \<open>run\<close> with a function that only reads keeps them. The third is not
  kept by every run: see the end of this section.
\<close>

definition edges_ok :: "rstate \<Rightarrow> bool" where
  "edges_ok st =
     ((\<forall>e d. (d \<in> set (deps (effs st e))) = (e \<in> set (subs (depStore st d)))) \<and>
      (\<forall>e. distinct (deps (effs st e))))"

definition alloc_ok :: "rstate \<Rightarrow> bool" where
  "alloc_ok st =
     ((\<forall>e d. d \<in> set (deps (effs st e)) \<longrightarrow> d < nextDep st) \<and>
      (\<forall>s d. slot_dep st s = Some d \<longrightarrow> d < nextDep st) \<and>
      (\<forall>s s' d. slot_dep st s = Some d \<longrightarrow> slot_dep st s' = Some d \<longrightarrow> s = s'))"

definition clean_above :: "nat \<Rightarrow> rstate \<Rightarrow> bool" where
  "clean_above k st =
     (\<forall>d j. k < j \<longrightarrow> \<not> bit (w (depStore st d)) j \<and> \<not> bit (n (depStore st d)) j)"

definition wf_state :: "rstate \<Rightarrow> bool" where
  "wf_state st =
     (edges_ok st \<and> alloc_ok st \<and> clean_above (effectTrackDepth st) st \<and>
      activeEffect st = (case effectStack st of [] \<Rightarrow> None | x # _ \<Rightarrow> Some x))"

lemma uint_level: "L < 31 \<Longrightarrow> uint (2 ^ L :: 32 word) = 2 ^ L"
  by (rule uint_2p) (simp add: word_gt_0 exp_eq_zero_iff)

lemma sint_level: "L < 31 \<Longrightarrow> sint (2 ^ L :: 32 word) = 2 ^ L"
proof -
  assume a: "L < 31"
  have "(2::int) ^ L < 2 ^ 31"
    using a by (intro power_strict_increasing) auto
  moreover have "- (2 ^ 31) \<le> (2::int) ^ L"
    by (rule order_trans [of _ 0]) simp_all
  ultimately have "signed_take_bit 31 ((2::int) ^ L) = 2 ^ L"
    by (rule signed_take_bit_int_eq_self [rotated])
  then show ?thesis
    using uint_level [OF a] by (simp add: sint_uint)
qed

lemma shl1_level: "L < 31 \<Longrightarrow> shl1 L = 2 ^ L"
  by (simp add: shl1_def)

lemma level_bit_test:
  assumes "L < 31"
  shows "(0 < sint ((x :: 32 word) AND 2 ^ L)) = bit x L"
proof (cases "bit x L")
  case True
  have "x AND 2 ^ L = 2 ^ L"
    using True assms by (intro bit_word_eqI) (auto simp: bit_simps)
  then show ?thesis using True sint_level [OF assms] by simp
next
  case False
  have "x AND 2 ^ L = 0"
    using False assms by (intro bit_word_eqI) (auto simp: bit_simps)
  then show ?thesis using False by simp
qed

lemma level_bit_set:
  "L < 31 \<Longrightarrow> bit ((x :: 32 word) OR 2 ^ L) j = (bit x j \<or> j = L)"
  by (auto simp: bit_simps dest: bit_imp_le_length)

lemma level_bit_clear:
  "bit ((x :: 32 word) AND NOT (2 ^ L)) j = (bit x j \<and> j \<noteq> L)"
  by (auto simp: bit_simps dest: bit_imp_le_length)

lemma wasTracked_bit:
  "L < 31 \<Longrightarrow> trackOpBit st = 2 ^ L \<Longrightarrow> wasTracked st d = bit (w d) L"
  by (simp add: wasTracked_def level_bit_test)

lemma newTracked_bit:
  "L < 31 \<Longrightarrow> trackOpBit st = 2 ^ L \<Longrightarrow> newTracked st d = bit (n d) L"
  by (simp add: newTracked_def level_bit_test)

text \<open>
  The invariant while the function of effect \<open>e\<close> runs at depth \<open>L\<close>: \<open>D0\<close> are the
  deps \<open>e\<close> held when the run started and \<open>rd\<close> the slots read so far.
\<close>

definition body_inv :: "eid \<Rightarrow> did list \<Rightarrow> nat \<Rightarrow> slot set \<Rightarrow> rstate \<Rightarrow> bool" where
  "body_inv e D0 L rd st =
     (activeEffect st = Some e \<and> shouldTrack st \<and> effectTrackDepth st = L \<and>
      trackOpBit st = 2 ^ L \<and> edges_ok st \<and> alloc_ok st \<and> clean_above L st \<and>
      (\<forall>d. bit (w (depStore st d)) L = (d \<in> set D0)) \<and>
      (\<forall>d. bit (n (depStore st d)) L = (\<exists>s\<in>rd. slot_dep st s = Some d)) \<and>
      (\<forall>s\<in>rd. slot_dep st s \<noteq> None) \<and>
      (\<exists>new. deps (effs st e) = D0 @ new \<and>
             (\<forall>d. (d \<in> set new) = (d \<notin> set D0 \<and> (\<exists>s\<in>rd. slot_dep st s = Some d)))))"

lemma trackEffects_inv:
  assumes inv: "body_inv e D0 L rd st" and L: "L < 31" and sd: "slot_dep st s = Some d"
  shows "body_inv e D0 L (insert s rd) (trackEffects d st)"
proof -
  from inv obtain new where
    ae: "activeEffect st = Some e" and sh: "shouldTrack st" and dp: "effectTrackDepth st = L"
    and tb: "trackOpBit st = 2 ^ L" and eo: "edges_ok st" and ao: "alloc_ok st"
    and ca: "clean_above L st"
    and wb: "\<And>d. bit (w (depStore st d)) L = (d \<in> set D0)"
    and nb: "\<And>d. bit (n (depStore st d)) L = (\<exists>s\<in>rd. slot_dep st s = Some d)"
    and dn: "\<And>s. s \<in> rd \<Longrightarrow> slot_dep st s \<noteq> None"
    and nw: "deps (effs st e) = D0 @ new"
    and nw': "\<And>d. (d \<in> set new) = (d \<notin> set D0 \<and> (\<exists>s\<in>rd. slot_dep st s = Some d))"
    unfolding body_inv_def by blast
  have inj: "\<And>s'. slot_dep st s' = Some d \<Longrightarrow> s' = s"
    using ao sd unfolding alloc_ok_def by blast
  have mm: "effectTrackDepth st \<le> maxMarkerBits"
    using L dp by (simp add: maxMarkerBits_def)
  show ?thesis
  proof (cases "bit (n (depStore st d)) L")
    case True
    then have "s \<in> rd"
      using nb inj by blast
    then have "insert s rd = rd" by blast
    moreover have "trackEffects d st = st"
      using True ae mm by (simp add: trackEffects_def newTracked_bit [OF L tb])
    ultimately show ?thesis using inv by simp
  next
    case False
    then have snd: "s \<notin> rd"
      using nb sd by blast
    define st1 where "st1 = upd_dep d (\<lambda>x. x\<lparr>n := n x OR trackOpBit st\<rparr>) st"
    have tb1: "trackOpBit st1 = 2 ^ L" by (simp add: st1_def tb)
    have sd1: "slot_dep st1 = slot_dep st" by (simp add: st1_def)
    have w1: "\<And>d'. w (depStore st1 d') = w (depStore st d')"
      by (simp add: st1_def)
    have n1: "\<And>d' j. bit (n (depStore st1 d')) j = (bit (n (depStore st d')) j \<or> (d' = d \<and> j = L))"
      using L by (auto simp: st1_def tb level_bit_set)
    have s1: "\<And>d'. subs (depStore st1 d') = subs (depStore st d')"
      by (simp add: st1_def)
    have e1: "effs st1 = effs st" by (simp add: st1_def)
    have nbs: "\<And>d'. (\<exists>s'\<in>insert s rd. slot_dep st s' = Some d') =
                 ((\<exists>s'\<in>rd. slot_dep st s' = Some d') \<or> d' = d)"
      using sd by auto
    show ?thesis
    proof (cases "d \<in> set D0")
      case True
      have te: "trackEffects d st = st1"
        using False True ae mm wb [of d]
        by (simp add: trackEffects_def newTracked_bit [OF L tb] Let_def st1_def [symmetric]
            wasTracked_bit [OF L tb1] w1)
      have "body_inv e D0 L (insert s rd) st1"
        unfolding body_inv_def
      proof (intro conjI)
        show "edges_ok st1" using eo by (simp add: edges_ok_def e1 s1)
        show "alloc_ok st1" using ao by (simp add: alloc_ok_def e1 sd1 st1_def)
        show "clean_above L st1" using ca by (auto simp: clean_above_def w1 n1)
        show "\<forall>d. bit (w (depStore st1 d)) L = (d \<in> set D0)" by (simp add: w1 wb)
        show "\<forall>d. bit (n (depStore st1 d)) L = (\<exists>s\<in>insert s rd. slot_dep st1 s = Some d)"
          unfolding sd1 nbs by (auto simp: n1 nb)
        show "\<forall>s\<in>insert s rd. slot_dep st1 s \<noteq> None"
          using dn sd by (auto simp: sd1)
        show "\<exists>new. deps (effs st1 e) = D0 @ new \<and>
             (\<forall>d. (d \<in> set new) = (d \<notin> set D0 \<and> (\<exists>s\<in>insert s rd. slot_dep st1 s = Some d)))"
          unfolding sd1 nbs using nw nw' True by (intro exI [of _ new]) (auto simp: e1)
      qed (simp_all add: st1_def ae sh dp tb)
      then show ?thesis by (simp add: te)
    next
      case notD0: False
      have te: "trackEffects d st = add_edge e d st1"
        using False notD0 ae mm wb [of d]
        by (simp add: trackEffects_def newTracked_bit [OF L tb] Let_def st1_def [symmetric]
            wasTracked_bit [OF L tb1] w1)
      have dnew: "d \<notin> set new" using nw' [of d] False nb [of d] by simp
      have dfresh: "d \<notin> set (deps (effs st e))" using nw notD0 dnew by simp
      have "body_inv e D0 L (insert s rd) (add_edge e d st1)"
        unfolding body_inv_def
      proof (intro conjI)
        show "edges_ok (add_edge e d st1)"
          using eo dfresh
          by (auto simp: edges_ok_def add_edge_def e1 s1 set_add_set)
        show "alloc_ok (add_edge e d st1)"
          using ao sd by (auto simp: alloc_ok_def add_edge_def e1 sd1 st1_def)
        show "clean_above L (add_edge e d st1)"
          using ca by (auto simp: clean_above_def add_edge_def w1 n1)
        show "\<forall>d'. bit (w (depStore (add_edge e d st1) d')) L = (d' \<in> set D0)"
          by (simp add: add_edge_def w1 wb)
        show "\<forall>d'. bit (n (depStore (add_edge e d st1) d')) L =
                (\<exists>s\<in>insert s rd. slot_dep (add_edge e d st1) s = Some d')"
          unfolding add_edge_def slot_dep_upd sd1 nbs by (auto simp: n1 nb)
        show "\<forall>s\<in>insert s rd. slot_dep (add_edge e d st1) s \<noteq> None"
          using dn sd by (auto simp: sd1 add_edge_def)
        show "\<exists>new. deps (effs (add_edge e d st1) e) = D0 @ new \<and>
             (\<forall>d'. (d' \<in> set new) =
                (d' \<notin> set D0 \<and> (\<exists>s\<in>insert s rd. slot_dep (add_edge e d st1) s = Some d')))"
          unfolding add_edge_def slot_dep_upd sd1 nbs using nw nw' notD0
          by (intro exI [of _ "new @ [d]"]) (auto simp: e1)
      qed (simp_all add: add_edge_def st1_def ae sh dp tb)
      then show ?thesis by (simp add: te)
    qed
  qed
qed

lemma alloc_slot_inv:
  assumes inv: "body_inv e D0 L rd st" and sd: "slot_dep st s = None"
  shows "body_inv e D0 L rd (alloc_slot s st)"
proof -
  from inv obtain new where
    ae: "activeEffect st = Some e" and sh: "shouldTrack st" and dp: "effectTrackDepth st = L"
    and tb: "trackOpBit st = 2 ^ L" and eo: "edges_ok st" and ao: "alloc_ok st"
    and ca: "clean_above L st"
    and wb: "\<And>d. bit (w (depStore st d)) L = (d \<in> set D0)"
    and nb: "\<And>d. bit (n (depStore st d)) L = (\<exists>s\<in>rd. slot_dep st s = Some d)"
    and dn: "\<And>s. s \<in> rd \<Longrightarrow> slot_dep st s \<noteq> None"
    and nw: "deps (effs st e) = D0 @ new"
    and nw': "\<And>d. (d \<in> set new) = (d \<notin> set D0 \<and> (\<exists>s\<in>rd. slot_dep st s = Some d))"
    unfolding body_inv_def by blast
  let ?st = "alloc_slot s st"
  let ?d = "nextDep st"
  note f = alloc_slot_fields
  have sd': "\<And>s'. slot_dep ?st s' = (if s' = s then Some ?d else slot_dep st s')"
    by (rule alloc_slot_dep [OF sd])
  have lt: "\<And>e' d'. d' \<in> set (deps (effs st e')) \<Longrightarrow> d' < ?d"
    using ao unfolding alloc_ok_def by blast
  have slt: "\<And>s' d'. slot_dep st s' = Some d' \<Longrightarrow> d' < ?d"
    using ao unfolding alloc_ok_def by blast
  have nosub: "\<And>e'. e' \<notin> set (subs (depStore st ?d))"
    using eo lt unfolding edges_ok_def by blast
  have snrd: "s \<notin> rd" using dn sd by blast
  have dD0: "?d \<notin> set D0" using lt [of ?d e] nw by auto
  have dnt: "\<not> (\<exists>s'\<in>rd. slot_dep st s' = Some ?d)" using slt by blast
  have same: "\<And>d'. (\<exists>s'\<in>rd. slot_dep ?st s' = Some d') = (\<exists>s'\<in>rd. slot_dep st s' = Some d')"
    using snrd by (auto simp: sd')
  show ?thesis
    unfolding body_inv_def
  proof (intro conjI)
    show "edges_ok ?st"
      using eo lt nosub by (auto simp: edges_ok_def f createDep_def set_of_array_def)
    show "alloc_ok ?st"
      unfolding alloc_ok_def f sd'
      using lt slt ao unfolding alloc_ok_def
      by (auto simp: less_Suc_eq split: if_splits)
    show "clean_above L ?st"
      using ca by (auto simp: clean_above_def f createDep_def)
    show "\<forall>d. bit (w (depStore ?st d)) L = (d \<in> set D0)"
      using wb dD0 by (auto simp: f createDep_def)
    show "\<forall>d. bit (n (depStore ?st d)) L = (\<exists>s\<in>rd. slot_dep ?st s = Some d)"
      unfolding same using nb dnt by (auto simp: f createDep_def)
    show "\<forall>s\<in>rd. slot_dep ?st s \<noteq> None"
      using dn by (auto simp: sd')
    show "\<exists>new. deps (effs ?st e) = D0 @ new \<and>
         (\<forall>d. (d \<in> set new) = (d \<notin> set D0 \<and> (\<exists>s\<in>rd. slot_dep ?st s = Some d)))"
      unfolding same using nw nw' by (intro exI [of _ new]) (simp add: f)
  qed (simp_all add: f ae sh dp tb)
qed

lemma track_slot_inv:
  assumes inv: "body_inv e D0 L rd st" and L: "L < 31"
  shows "body_inv e D0 L (insert s rd) (track_slot s st)"
proof -
  have a: "activeEffect st = Some e" "shouldTrack st"
    using inv by (simp_all add: body_inv_def)
  show ?thesis
  proof (cases "slot_dep st s")
    case None
    have i: "body_inv e D0 L rd (alloc_slot s st)"
      by (rule alloc_slot_inv [OF inv None])
    have "slot_dep (alloc_slot s st) s = Some (nextDep st)"
      by (simp add: alloc_slot_dep [OF None])
    with i L have "body_inv e D0 L (insert s rd) (trackEffects (nextDep st) (alloc_slot s st))"
      by (rule trackEffects_inv)
    then show ?thesis
      by (simp add: track_slot_unfold [OF a] None)
  next
    case (Some d)
    then show ?thesis
      using trackEffects_inv [OF inv L Some] by (simp add: track_slot_unfold [OF a])
  qed
qed

lemma reads_inv:
  assumes "body_inv e D0 L rd st" and "L < 31"
  shows "body_inv e D0 L (rd \<union> set slots) (fold track_slot slots st)"
  using assms
proof (induction slots arbitrary: rd st)
  case Nil
  then show ?case by simp
next
  case (Cons s slots)
  have "body_inv e D0 L (insert s rd) (track_slot s st)"
    using Cons.prems by (rule track_slot_inv)
  from Cons.IH [OF this Cons.prems(2)] show ?case by simp
qed

lemma run_enter_inv:
  assumes wf: "wf_state st" and ns: "e \<notin> set (effectStack st)"
    and dp: "effectTrackDepth st < maxMarkerBits"
  shows "body_inv e (deps (effs st e)) (Suc (effectTrackDepth st)) {} (count_call e (run_enter e st))"
proof -
  define L where "L = Suc (effectTrackDepth st)"
  let ?D0 = "deps (effs st e)"
  define st2 where "st2 = (enableTracking (st\<lparr>effectStack := e # effectStack st, activeEffect := Some e\<rparr>))
     \<lparr>effectTrackDepth := L, trackOpBit := shl1 L\<rparr>"
  have L: "L < 31" and L': "effectTrackDepth st < L" "L \<le> maxMarkerBits"
    using dp by (simp_all add: maxMarkerBits_def L_def)
  have eo: "edges_ok st" and ao: "alloc_ok st" and ca: "clean_above (effectTrackDepth st) st"
    using wf by (simp_all add: wf_state_def)
  have dist: "distinct ?D0" using eo by (simp add: edges_ok_def)
  have st2f: "effs st2 = effs st" "depStore st2 = depStore st" "nextDep st2 = nextDep st"
    "targetMap st2 = targetMap st" "refDeps st2 = refDeps st" "activeEffect st2 = Some e"
    "shouldTrack st2" "effectTrackDepth st2 = L" "trackOpBit st2 = 2 ^ L"
    by (simp_all add: st2_def enableTracking_def shl1_level [OF L])
  define f where "f = (\<lambda>d::did. \<lambda>x::dep. x\<lparr>w := w x OR trackOpBit st2\<rparr>)"
  define st3 where "st3 = fold (\<lambda>d s. upd_dep d (f d) s) ?D0 st2"
  have "run_enter e st = (if effectTrackDepth st2 \<le> maxMarkerBits then initDepMarkers e st2
      else cleanupEffect e st2)"
    by (simp add: run_enter_def Let_def st2_def L_def enableTracking_def)
  then have re: "run_enter e st = st3"
    using L' by (simp add: st2f initDepMarkers_def st3_def f_def)
  note o = fold_upd_dep_other [of f ?D0 st2, folded st3_def]
  have ds: "\<And>d. depStore st3 d =
      (if d \<in> set ?D0 then (depStore st d)\<lparr>w := w (depStore st d) OR 2 ^ L\<rparr> else depStore st d)"
    unfolding st3_def using fold_upd_dep_store [OF dist, of f st2] by (simp add: st2f f_def)
  have sd: "slot_dep (count_call e st3) = slot_dep st"
    by (rule slot_dep_cong) (simp_all add: count_call_def o st2f)
  have "body_inv e ?D0 L {} (count_call e st3)"
    unfolding body_inv_def
  proof (intro conjI)
    show "edges_ok (count_call e st3)"
      using eo by (auto simp: edges_ok_def count_call_def o st2f ds)
    show "alloc_ok (count_call e st3)"
      using ao unfolding alloc_ok_def sd by (simp add: count_call_def o st2f)
    show "clean_above L (count_call e st3)"
      using ca L L' by (auto simp: clean_above_def count_call_def ds level_bit_set [OF L])
    show "\<forall>d. bit (w (depStore (count_call e st3) d)) L = (d \<in> set ?D0)"
      using ca L L' by (auto simp: clean_above_def count_call_def ds level_bit_set [OF L])
    show "\<forall>d. bit (n (depStore (count_call e st3) d)) L =
            (\<exists>s\<in>{}. slot_dep (count_call e st3) s = Some d)"
      using ca L' by (auto simp: clean_above_def count_call_def ds)
    show "\<exists>new. deps (effs (count_call e st3) e) = ?D0 @ new \<and>
       (\<forall>d. (d \<in> set new) = (d \<notin> set ?D0 \<and> (\<exists>s\<in>{}. slot_dep (count_call e st3) s = Some d)))"
      by (intro exI [of _ "[]"]) (simp add: count_call_def o st2f)
  qed (simp_all add: count_call_def o st2f)
  then show ?thesis by (simp add: re L_def)
qed

definition stale :: "nat \<Rightarrow> rstate \<Rightarrow> did \<Rightarrow> bool" where
  "stale L st d = (bit (w (depStore st d)) L \<and> \<not> bit (n (depStore st d)) L)"

definition fin_dep :: "eid \<Rightarrow> nat \<Rightarrow> rstate \<Rightarrow> did \<Rightarrow> dep" where
  "fin_dep e L st d =
     (depStore st d)
       \<lparr>subs := (if stale L st d then set_delete e (subs (depStore st d)) else subs (depStore st d)),
        w := w (depStore st d) AND NOT (2 ^ L), n := n (depStore st d) AND NOT (2 ^ L)\<rparr>"

definition fin_step :: "eid \<Rightarrow> nat \<Rightarrow> did \<Rightarrow> rstate \<Rightarrow> rstate" where
  "fin_step e L d st = st\<lparr>depStore := (depStore st)(d := fin_dep e L st d)\<rparr>"

lemma finalize_loop_step:
  assumes "L < 31" "trackOpBit st = 2 ^ L"
  shows "finalize_loop e (d # ds) st =
     (if stale L st d then fst (finalize_loop e ds (fin_step e L d st))
      else d # fst (finalize_loop e ds (fin_step e L d st)),
      snd (finalize_loop e ds (fin_step e L d st)))"
proof -
  have a: "upd_dep d (\<lambda>x. x\<lparr>w := w x AND NOT (2 ^ L), n := n x AND NOT (2 ^ L)\<rparr>)
             (if stale L st d then upd_dep d (\<lambda>x. x\<lparr>subs := set_delete e (subs x)\<rparr>) st else st)
           = fin_step e L d st"
    by (simp add: fin_step_def fin_dep_def upd_dep_def)
  show ?thesis
    using assms
    by (simp add: Let_def wasTracked_bit [OF assms] newTracked_bit [OF assms] stale_def [symmetric]
        a split: prod.splits)
qed

lemma fin_step_fields:
  "effs (fin_step e L d st) = effs st"
  "nextDep (fin_step e L d st) = nextDep st"
  "targetMap (fin_step e L d st) = targetMap st"
  "refDeps (fin_step e L d st) = refDeps st"
  "effectStack (fin_step e L d st) = effectStack st"
  "activeEffect (fin_step e L d st) = activeEffect st"
  "shouldTrack (fin_step e L d st) = shouldTrack st"
  "trackStack (fin_step e L d st) = trackStack st"
  "effectTrackDepth (fin_step e L d st) = effectTrackDepth st"
  "trackOpBit (fin_step e L d st) = trackOpBit st"
  "fnCalls (fin_step e L d st) = fnCalls st"
  "depStore (fin_step e L d st) = (depStore st)(d := fin_dep e L st d)"
  by (simp_all add: fin_step_def)

lemma finalize_loop_char:
  assumes "distinct ds" "L < 31" "trackOpBit st = 2 ^ L"
  shows "fst (finalize_loop e ds st) = filter (\<lambda>d. \<not> stale L st d) ds \<and>
         (\<forall>d. depStore (snd (finalize_loop e ds st)) d =
              (if d \<in> set ds then fin_dep e L st d else depStore st d)) \<and>
         effs (snd (finalize_loop e ds st)) = effs st \<and>
         nextDep (snd (finalize_loop e ds st)) = nextDep st \<and>
         targetMap (snd (finalize_loop e ds st)) = targetMap st \<and>
         refDeps (snd (finalize_loop e ds st)) = refDeps st \<and>
         effectStack (snd (finalize_loop e ds st)) = effectStack st \<and>
         activeEffect (snd (finalize_loop e ds st)) = activeEffect st \<and>
         shouldTrack (snd (finalize_loop e ds st)) = shouldTrack st \<and>
         trackStack (snd (finalize_loop e ds st)) = trackStack st \<and>
         effectTrackDepth (snd (finalize_loop e ds st)) = effectTrackDepth st \<and>
         trackOpBit (snd (finalize_loop e ds st)) = trackOpBit st \<and>
         fnCalls (snd (finalize_loop e ds st)) = fnCalls st"
  using assms
proof (induction ds arbitrary: st)
  case Nil
  then show ?case by simp
next
  case (Cons d ds)
  let ?st = "fin_step e L d st"
  have tb: "trackOpBit ?st = 2 ^ L" using Cons.prems by (simp add: fin_step_fields)
  have dd: "distinct ds" "d \<notin> set ds" using Cons.prems by simp_all
  note IH = Cons.IH [OF dd(1) Cons.prems(2) tb]
  have other: "\<And>d'. d' \<in> set ds \<Longrightarrow> stale L ?st d' = stale L st d'"
    "\<And>d'. d' \<in> set ds \<Longrightarrow> fin_dep e L ?st d' = fin_dep e L st d'"
    using dd(2) by (auto simp: stale_def fin_dep_def fin_step_fields)
  have flt: "filter (\<lambda>d. \<not> stale L ?st d) ds = filter (\<lambda>d. \<not> stale L st d) ds"
    by (intro filter_cong refl) (simp add: other(1))
  show ?case
    unfolding finalize_loop_step [OF Cons.prems(2,3)]
    using IH dd(2) other(2)
    by (auto simp: flt fin_step_fields)
qed

lemma finalizeDepMarkers_char:
  assumes "distinct (deps (effs st e))" "L < 31" "trackOpBit st = 2 ^ L"
  shows "(\<forall>d. depStore (finalizeDepMarkers e st) d =
              (if d \<in> set (deps (effs st e)) then fin_dep e L st d else depStore st d)) \<and>
         effs (finalizeDepMarkers e st) =
           (effs st)(e := (effs st e)\<lparr>deps := filter (\<lambda>d. \<not> stale L st d) (deps (effs st e))\<rparr>) \<and>
         nextDep (finalizeDepMarkers e st) = nextDep st \<and>
         targetMap (finalizeDepMarkers e st) = targetMap st \<and>
         refDeps (finalizeDepMarkers e st) = refDeps st \<and>
         effectStack (finalizeDepMarkers e st) = effectStack st \<and>
         trackStack (finalizeDepMarkers e st) = trackStack st \<and>
         effectTrackDepth (finalizeDepMarkers e st) = effectTrackDepth st \<and>
         fnCalls (finalizeDepMarkers e st) = fnCalls st"
proof (cases "deps (effs st e) = []")
  case True
  then have "(effs st e)\<lparr>deps := []\<rparr> = effs st e"
    by (cases "effs st e") simp
  then have "(effs st)(e := (effs st e)\<lparr>deps := []\<rparr>) = effs st"
    by simp
  then show ?thesis using True by (simp add: finalizeDepMarkers_def)
next
  case False
  obtain kept st2 where r: "finalize_loop e (deps (effs st e)) st = (kept, st2)"
    by (cases "finalize_loop e (deps (effs st e)) st")
  have fin: "finalizeDepMarkers e st = upd_effect e (\<lambda>x. x\<lparr>deps := kept\<rparr>) st2"
    using False r by (simp add: finalizeDepMarkers_def)
  from finalize_loop_char [OF assms, of e] r
  have k: "kept = filter (\<lambda>d. \<not> stale L st d) (deps (effs st e))"
    and d: "\<And>d. depStore st2 d =
              (if d \<in> set (deps (effs st e)) then fin_dep e L st d else depStore st d)"
    and o: "effs st2 = effs st" "nextDep st2 = nextDep st" "targetMap st2 = targetMap st"
      "refDeps st2 = refDeps st" "effectStack st2 = effectStack st"
      "trackStack st2 = trackStack st" "effectTrackDepth st2 = effectTrackDepth st"
      "fnCalls st2 = fnCalls st"
    by simp_all
  show ?thesis
    unfolding fin by (simp add: k d o)
qed

lemma run_exit_inv:
  assumes inv: "body_inv e D0 L rd st" and L: "L < 31"
  shows "edges_ok (run_exit e st) \<and> alloc_ok (run_exit e st) \<and>
         clean_above (L - 1) (run_exit e st) \<and>
         effectTrackDepth (run_exit e st) = L - 1 \<and>
         (\<forall>s. subscribed (run_exit e st) e s = (s \<in> rd)) \<and>
         effectStack (run_exit e st) = tl (effectStack st) \<and>
         activeEffect (run_exit e st) = (case tl (effectStack st) of [] \<Rightarrow> None | x # _ \<Rightarrow> Some x) \<and>
         fnCalls (run_exit e st) = fnCalls st \<and>
         (\<forall>x. active (effs (run_exit e st) x) = active (effs st x) \<and>
              allowRecurse (effs (run_exit e st) x) = allowRecurse (effs st x) \<and>
              has_scheduler (effs (run_exit e st) x) = has_scheduler (effs st x))"
proof -
  from inv obtain new where
    dp: "effectTrackDepth st = L"
    and tb: "trackOpBit st = 2 ^ L" and eo: "edges_ok st" and ao: "alloc_ok st"
    and ca: "clean_above L st"
    and wb: "\<And>d. bit (w (depStore st d)) L = (d \<in> set D0)"
    and nb: "\<And>d. bit (n (depStore st d)) L = (\<exists>s\<in>rd. slot_dep st s = Some d)"
    and dn: "\<And>s. s \<in> rd \<Longrightarrow> slot_dep st s \<noteq> None"
    and nw: "deps (effs st e) = D0 @ new"
    and nw': "\<And>d. (d \<in> set new) = (d \<notin> set D0 \<and> (\<exists>s\<in>rd. slot_dep st s = Some d))"
    unfolding body_inv_def by blast
  let ?ds = "deps (effs st e)"
  have dist: "distinct ?ds" using eo by (simp add: edges_ok_def)
  have edge: "\<And>x d. (d \<in> set (deps (effs st x))) = (x \<in> set (subs (depStore st d)))"
    using eo by (simp add: edges_ok_def)
  have distx: "\<And>x. distinct (deps (effs st x))"
    using eo by (simp add: edges_ok_def)
  define st1 where "st1 = finalizeDepMarkers e st"
  note fc = finalizeDepMarkers_char [OF dist L tb, folded st1_def]
  have mm: "effectTrackDepth st \<le> maxMarkerBits" using L dp by (simp add: maxMarkerBits_def)
  define st' where "st' = run_exit e st"
  have f': "depStore st' = depStore st1" "effs st' = effs st1" "nextDep st' = nextDep st1"
    "targetMap st' = targetMap st1" "refDeps st' = refDeps st1"
    "effectStack st' = tl (effectStack st)"
    "activeEffect st' = (case tl (effectStack st) of [] \<Rightarrow> None | x # _ \<Rightarrow> Some x)"
    "effectTrackDepth st' = L - 1" "fnCalls st' = fnCalls st"
    using mm fc
    by (simp_all add: st'_def run_exit_def Let_def st1_def [symmetric] resetTracking_fields dp)
  have sd': "slot_dep st' = slot_dep st"
    by (rule slot_dep_cong) (simp_all add: f' fc)
  have tracked: "\<And>d. (\<not> stale L st d \<and> d \<in> set ?ds) = (\<exists>s\<in>rd. slot_dep st s = Some d)"
    unfolding stale_def wb nb nw using nw' by auto
  have store: "\<And>d. depStore st' d = (if d \<in> set ?ds then fin_dep e L st d else depStore st d)"
    using fc by (simp add: f')
  have sub_e: "\<And>d. (e \<in> set (subs (depStore st' d))) = (\<exists>s\<in>rd. slot_dep st s = Some d)"
    unfolding store tracked [symmetric]
    using edge [of _ e] by (auto simp: fin_dep_def set_delete_set)
  have sub_x: "\<And>x d. x \<noteq> e \<Longrightarrow> (x \<in> set (subs (depStore st' d))) = (x \<in> set (subs (depStore st d)))"
    unfolding store by (auto simp: fin_dep_def set_delete_set)
  have deps_e: "deps (effs st' e) = filter (\<lambda>d. \<not> stale L st d) ?ds"
    using fc by (simp add: f')
  have deps_x: "\<And>x. x \<noteq> e \<Longrightarrow> deps (effs st' x) = deps (effs st x)"
    using fc by (simp add: f')
  have inj: "\<And>s s' d. slot_dep st s = Some d \<Longrightarrow> slot_dep st s' = Some d \<Longrightarrow> s = s'"
    using ao unfolding alloc_ok_def by blast
  have "edges_ok st'"
    unfolding edges_ok_def
  proof (intro conjI allI)
    fix x d
    show "(d \<in> set (deps (effs st' x))) = (x \<in> set (subs (depStore st' d)))"
    proof (cases "x = e")
      case True
      then show ?thesis using tracked [of d] by (auto simp: deps_e sub_e)
    next
      case False
      then show ?thesis by (simp add: deps_x sub_x edge)
    qed
    show "distinct (deps (effs st' x))"
      using distx [of x] dist by (cases "x = e") (simp_all add: deps_e deps_x)
  qed
  moreover have "alloc_ok st'"
  proof -
    have nd: "nextDep st' = nextDep st" using fc by (simp add: f')
    have "\<And>x d. d \<in> set (deps (effs st' x)) \<Longrightarrow> d \<in> set (deps (effs st x))"
    proof -
      fix x d assume "d \<in> set (deps (effs st' x))"
      then show "d \<in> set (deps (effs st x))"
        by (cases "x = e") (simp_all add: deps_e deps_x)
    qed
    then show ?thesis
      using ao unfolding alloc_ok_def sd' nd by blast
  qed
  moreover have "clean_above (L - 1) st'"
    unfolding clean_above_def
  proof (intro allI impI)
    fix d j
    assume j: "L - 1 < j"
    show "\<not> bit (w (depStore st' d)) j \<and> \<not> bit (n (depStore st' d)) j"
    proof (cases "j = L")
      case True
      have "d \<notin> set ?ds \<Longrightarrow> \<not> bit (w (depStore st d)) L \<and> \<not> bit (n (depStore st d)) L"
        using wb [of d] nb [of d] nw nw' [of d] by auto
      then show ?thesis
        using True by (auto simp: store fin_dep_def level_bit_clear)
    next
      case False
      then have "L < j" using j by simp
      then have "\<not> bit (w (depStore st d)) j \<and> \<not> bit (n (depStore st d)) j"
        using ca by (simp add: clean_above_def)
      then show ?thesis
        by (auto simp: store fin_dep_def level_bit_clear)
    qed
  qed
  moreover have "\<forall>s. subscribed st' e s = (s \<in> rd)"
  proof
    fix s
    show "subscribed st' e s = (s \<in> rd)"
    proof (cases "slot_dep st s")
      case None
      then show ?thesis using dn [of s] by (auto simp: subscribed_def sd')
    next
      case (Some d)
      have "(\<exists>s'\<in>rd. slot_dep st s' = Some d) = (s \<in> rd)"
        using inj [OF Some] Some by blast
      then show ?thesis
        by (simp add: subscribed_def sd' sub_e Some)
    qed
  qed
  moreover have "\<forall>x. active (effs st' x) = active (effs st x) \<and>
              allowRecurse (effs st' x) = allowRecurse (effs st x) \<and>
              has_scheduler (effs st' x) = has_scheduler (effs st x)"
    using fc by (simp add: f')
  ultimately show ?thesis
    unfolding st'_def [symmetric] f'(6,7,8,9) by blast
qed


text \<open>
  A run of an active effect that is not already running, at a depth within the marker
  range, in a state satisfying the conditions above, whose function performs the tracked
  reads \<open>slots\<close>: it returns, the conditions hold again, the function has been invoked
  once, and the effect is subscribed to exactly the slots it read on this run, whatever
  it was subscribed to before.
\<close>

lemma run_reader_subscriptions:
  assumes wf: "wf_state st" and act: "active (effs st e)" and ns: "e \<notin> set (effectStack st)"
    and dp: "effectTrackDepth st < maxMarkerBits"
  shows "\<exists>st'. run e (reader slots v call) st = Some (Inr v, st') \<and>
         wf_state st' \<and> active (effs st' e) \<and>
         effectStack st' = effectStack st \<and>
         effectTrackDepth st' = effectTrackDepth st \<and>
         fnCalls st' e = Suc (fnCalls st e) \<and>
         (\<forall>s. subscribed st' e s = (s \<in> set slots))"
proof -
  define L where "L = Suc (effectTrackDepth st)"
  define sa where "sa = count_call e (run_enter e st)"
  define sb where "sb = fold track_slot slots sa"
  define st' where "st' = run_exit e sb"
  have L: "L < 31" using dp by (simp add: L_def maxMarkerBits_def)
  have r: "run e (reader slots v call) st = Some (Inr v, st')"
    using act ns by (simp add: run_def reader_def st'_def sb_def sa_def)
  have ia: "body_inv e (deps (effs st e)) L {} sa"
    unfolding sa_def L_def by (rule run_enter_inv [OF wf ns dp])
  have ib: "body_inv e (deps (effs st e)) L (set slots) sb"
    using reads_inv [OF ia L, of slots] by (simp add: sb_def)
  note ex = run_exit_inv [OF ib L, folded st'_def]
  have ca: "ctl_eq sa sb" unfolding sb_def by (rule reads_ctl)
  have sa_f: "effectStack sa = e # effectStack st" "fnCalls sa e = Suc (fnCalls st e)"
    "\<And>x. active (effs sa x) = active (effs st x)"
    by (simp_all add: sa_def count_call_def run_enter_ctl)
  have stack: "effectStack st' = effectStack st"
    using ex ca sa_f by (simp add: ctl_eq_def)
  have depth: "effectTrackDepth st' = effectTrackDepth st"
    using ex by (simp add: L_def)
  have ae: "activeEffect st' = (case effectStack st' of [] \<Rightarrow> None | x # _ \<Rightarrow> Some x)"
    using ex ca sa_f by (simp add: ctl_eq_def)
  have wf': "wf_state st'"
    using ex ae by (simp add: wf_state_def depth L_def)
  have act': "active (effs st' e)"
    using ex ca sa_f act by (simp add: ctl_eq_def)
  have calls: "fnCalls st' e = Suc (fnCalls st e)"
    using ex ca sa_f by (simp add: ctl_eq_def)
  have subs': "\<forall>s. subscribed st' e s = (s \<in> set slots)"
    using ex by simp
  show ?thesis
    using r wf' act' stack depth calls subs' by blast
qed

text \<open>
  The initial state of the module, and an effect function that reads a slot and then
  stops its own effect, as the stop handle of a watcher called from the watcher's own
  callback does.
\<close>

definition empty_state :: rstate where
  "empty_state =
     \<lparr>depStore = (\<lambda>d. createDep []), nextDep = 0,
      effs = (\<lambda>e. \<lparr>active = True, deps = [], allowRecurse = False, has_scheduler = False\<rparr>),
      targetMap = (\<lambda>t. None), effectStack = [], activeEffect = None, shouldTrack = True,
      trackStack = [], effectTrackDepth = 0, trackOpBit = 1, refDeps = (\<lambda>r. None),
      comps = (\<lambda>r. \<lparr>c_value = VUndefined, c_dirty = True, c_effect = 0\<rparr>),
      fnCalls = (\<lambda>e. 0)\<rparr>"

definition self_stopper :: "slot \<Rightarrow> eid \<Rightarrow> ucode" where
  "self_stopper s e call st = Some (Inr VUndefined, stop e (track_slot s st))"

text \<open>
  Effect 1 reads \<open>cond ? a : b\<close>. It runs with \<open>cond\<close> true; then (or not) effect 0
  runs, reading \<open>b\<close> and stopping itself; then effect 1 runs again with \<open>cond\<close> false.
  The result is the final state with what a trigger of \<open>b\<close> then does.
\<close>

definition no_callee :: callee where
  "no_callee d st = None"

definition cond_effect_env :: env where
  "cond_effect_env =
     \<lparr>fn_of = (\<lambda>e. reader [PropSlot 0 (KProp ''cond''), PropSlot 0 (KProp ''b'')] VUndefined),
      sched_of = (\<lambda>e call st. None)\<rparr>"

definition cond_effect_scenario :: "bool \<Rightarrow> (nat \<times> bool \<times> bool \<times> (dispatch list \<times> nat) option) option" where
  "cond_effect_scenario with_self_stop =
     (case run 1 (reader [PropSlot 0 (KProp ''cond''), PropSlot 0 (KProp ''a'')] VUndefined no_callee)
             empty_state of
        None \<Rightarrow> None
      | Some (r1, s1) \<Rightarrow>
          (case (if with_self_stop then run 0 (self_stopper (PropSlot 0 (KProp ''b'')) 0 no_callee) s1
                 else Some (Inr VUndefined, s1)) of
             None \<Rightarrow> None
           | Some (r2, s2) \<Rightarrow>
               (case run 1 (reader [PropSlot 0 (KProp ''cond''), PropSlot 0 (KProp ''b'')] VUndefined
                              no_callee) s2 of
                  None \<Rightarrow> None
                | Some (r3, s3) \<Rightarrow>
                    Some (fnCalls s3 1,
                          subscribed s3 1 (PropSlot 0 (KProp ''a'')),
                          subscribed s3 1 (PropSlot 0 (KProp ''b'')),
                          map_option (\<lambda>(ds, r, s4). (ds, fnCalls s4 1))
                            (trigger_slot (\<lambda>s k. False) (rcall 2 cond_effect_env)
                               (PropSlot 0 (KProp ''b'')) s3)))))"


definition self_stop_marker :: "(nat \<times> 32 word \<times> eid list \<times> did list \<times> bool) option" where
  "self_stop_marker =
     (case run 0 (self_stopper (PropSlot 0 (KProp ''b'')) 0 no_callee) empty_state of
        None \<Rightarrow> None
      | Some (r, s) \<Rightarrow>
          Some (effectTrackDepth s, n (depStore s 0), subs (depStore s 0), deps (effs s 0),
                active (effs s 0)))"

text \<open>
  Claim C1. An effect that read slot \<open>b\<close> and no longer slot \<open>a\<close> on its latest run is
  subscribed to \<open>b\<close> and not to \<open>a\<close>, so that triggering \<open>b\<close> re-runs it. The code departs
  from this. Without the self-stopping effect, effect 1 ends subscribed to \<open>b\<close> and a
  trigger of \<open>b\<close> runs it a third time. After another effect has read \<open>b\<close> and stopped
  itself during its run, the same two runs of effect 1 leave it unsubscribed from \<open>b\<close>,
  and a trigger of \<open>b\<close> invokes nothing: \<open>stop\<close> emptied the stopped effect's \<open>deps\<close>, so
  \<open>finalizeDepMarkers\<close> had no dep to clear, and the dep of \<open>b\<close> keeps the marker bit of
  depth 1 in \<open>n\<close>, which the next run at that depth reads as "already tracked on this run".
\<close>

theorem stale_marker_after_self_stop:
  "cond_effect_scenario False = Some (2, False, True, Some ([CallRun 1], 3)) \<and>
   cond_effect_scenario True = Some (2, False, False, Some ([], 2)) \<and>
   self_stop_marker = Some (0, 2, [], [], False)"
proof -
  have "cond_effect_scenario False = Some (2, False, True, Some ([CallRun 1], 3))"
    by code_simp
  moreover have "cond_effect_scenario True = Some (2, False, False, Some ([], 2))"
    by code_simp
  moreover have "self_stop_marker = Some (0, 2, [], [], False)"
    by code_simp
  ultimately show ?thesis by simp
qed

section \<open>Computed refs\<close>

text \<open>
  \<open>ComputedRefImpl\<close> of computed.ts. The constructor creates the effect that wraps the
  getter, with the scheduler that marks the computed dirty; the getter itself is the
  \<open>fn\<close> of that effect. \<open>toRaw\<close> is the identity on an object that is not a proxy.
\<close>

definition create_computed :: "nat \<Rightarrow> eid \<Rightarrow> rstate \<Rightarrow> rstate" where
  "create_computed r e st =
     st\<lparr>comps := (comps st)(r := \<lparr>c_value = VUndefined, c_dirty = True, c_effect = e\<rparr>),
        refDeps := (refDeps st)(r := None),
        effs := (effs st)(e := \<lparr>active = True, deps = [], allowRecurse = False,
                                has_scheduler = True\<rparr>)\<rparr>"

definition set_dirty :: "nat \<Rightarrow> bool \<Rightarrow> rstate \<Rightarrow> rstate" where
  "set_dirty r b st = st\<lparr>comps := (comps st)(r := (comps st r)\<lparr>c_dirty := b\<rparr>)\<rparr>"

definition set_value :: "nat \<Rightarrow> jsval \<Rightarrow> rstate \<Rightarrow> rstate" where
  "set_value r v st = st\<lparr>comps := (comps st)(r := (comps st r)\<lparr>c_value := v\<rparr>)\<rparr>"

text \<open>\<open>get value()\<close>: \<open>_dirty\<close> is cleared before \<open>effect.run()\<close>, and \<open>_value\<close> is assigned
  when the run has returned.\<close>

definition computed_get :: "callee \<Rightarrow> nat \<Rightarrow> rstate \<Rightarrow> jsval outcome option" where
  "computed_get call r st =
     (let st1 = trackRefValue r st
      in if c_dirty (comps st1 r)
         then (case call (CallRun (c_effect (comps st1 r))) (set_dirty r False st1) of
                 None \<Rightarrow> None
               | Some (Inl err, st2) \<Rightarrow> Some (Inl err, st2)
               | Some (Inr v, st2) \<Rightarrow> Some (Inr v, set_value r v st2))
         else Some (Inr (c_value (comps st1 r)), st1))"

text \<open>The scheduler that the constructor gives the effect.\<close>

definition computed_scheduler :: "callee \<Rightarrow> nat \<Rightarrow> rstate \<Rightarrow> (dispatch list \<times> unit outcome) option" where
  "computed_scheduler call r st =
     (if \<not> c_dirty (comps st r) then triggerRefValue call r (set_dirty r True st)
      else Some ([], Inr (), st))"

definition computed_sched :: "nat \<Rightarrow> ucode" where
  "computed_sched r call st = returning_undefined (computed_scheduler call r st)"

text \<open>User code that reads \<open>.value\<close> of a computed, and consecutive reads with the
  values they return.\<close>

definition computed_reader :: "nat \<Rightarrow> ucode" where
  "computed_reader r call st = computed_get call r st"

fun computed_reads :: "callee \<Rightarrow> nat \<Rightarrow> nat \<Rightarrow> rstate \<Rightarrow> (jsval list) outcome option" where
  "computed_reads call r 0 st = Some (Inr [], st)"
| "computed_reads call r (Suc m) st =
     (case computed_get call r st of
        None \<Rightarrow> None
      | Some (Inl err, st') \<Rightarrow> Some (Inl err, st')
      | Some (Inr v, st') \<Rightarrow>
          (case computed_reads call r m st' of
             None \<Rightarrow> None
           | Some (Inl err, st'') \<Rightarrow> Some (Inl err, st'')
           | Some (Inr vs, st'') \<Rightarrow> Some (Inr (v # vs), st'')))"







definition computed_example :: rstate where
  "computed_example = create_computed 0 0 empty_state"




text \<open>Two more systems around computed 0. In the first, effect 5 is a plain effect whose
  function reads the computed. In the second, the getter reads property \<open>x\<close> and then
  runs effect 7, whose function assigns to \<open>x\<close>.\<close>

definition downstream_env :: env where
  "downstream_env =
     \<lparr>fn_of = (\<lambda>e. if e = 0 then reader [PropSlot 0 (KProp ''a'')] (VNum 3)
                   else if e = 5 then computed_reader 0 else reader [] VUndefined),
      sched_of = (\<lambda>e. if e = 0 then computed_sched 0 else reader [] VUndefined)\<rparr>"

definition downstream_scenario :: "(dispatch list \<times> (nat \<times> nat \<times> bool) \<times> (nat \<times> nat \<times> bool) \<times> nat) option" where
  "downstream_scenario =
     (case run 5 (computed_reader 0 (rcall 6 downstream_env)) computed_example of
        Some (Inr v, s1) \<Rightarrow>
          (case trigger_slot (\<lambda>s k. False) (rcall 6 downstream_env) (PropSlot 0 (KProp ''a'')) s1 of
             Some (ds, Inr u, s2) \<Rightarrow>
               (case computed_reads (rcall 6 downstream_env) 0 4 s2 of
                  Some (Inr ws, s3) \<Rightarrow>
                    Some (ds, (fnCalls s1 0, fnCalls s1 5, c_dirty (comps s1 0)),
                          (fnCalls s2 0, fnCalls s2 5, c_dirty (comps s2 0)), fnCalls s3 0)
                | _ \<Rightarrow> None)
           | _ \<Rightarrow> None)
      | _ \<Rightarrow> None)"

definition nested_writer_env :: env where
  "nested_writer_env =
     \<lparr>fn_of = (\<lambda>e. if e = 0
                   then (\<lambda>call st. call (CallRun 7) (track_slot (PropSlot 0 (KProp ''x'')) st))
                   else if e = 7 then writer (\<lambda>s k. False) (PropSlot 0 (KProp ''x''))
                   else reader [] VUndefined),
      sched_of = (\<lambda>e. if e = 0 then computed_sched 0 else reader [] VUndefined)\<rparr>"

lemma set_dirty_fields [simp]:
  "comps (set_dirty r b st) = (comps st)(r := (comps st r)\<lparr>c_dirty := b\<rparr>)"
  "effs (set_dirty r b st) = effs st"
  "effectStack (set_dirty r b st) = effectStack st"
  "activeEffect (set_dirty r b st) = activeEffect st"
  "fnCalls (set_dirty r b st) = fnCalls st"
  "refDeps (set_dirty r b st) = refDeps st"
  "depStore (set_dirty r b st) = depStore st"
  "targetMap (set_dirty r b st) = targetMap st"
  by (simp_all add: set_dirty_def)

lemma set_value_fields [simp]:
  "comps (set_value r v st) = (comps st)(r := (comps st r)\<lparr>c_value := v\<rparr>)"
  "effs (set_value r v st) = effs st"
  "effectStack (set_value r v st) = effectStack st"
  "activeEffect (set_value r v st) = activeEffect st"
  "fnCalls (set_value r v st) = fnCalls st"
  "refDeps (set_value r v st) = refDeps st"
  "depStore (set_value r v st) = depStore st"
  "targetMap (set_value r v st) = targetMap st"
  by (simp_all add: set_value_def)












lemma computed_reader_ok: "ucode_ok (computed_reader r)"
  unfolding ucode_ok_def
proof (intro allI impI)
  fix call st res st'
  assume c: "callee_ok call" and ok: "stack_ok st" and r: "computed_reader r call st = Some (res, st')"
  define s0 where "s0 = trackRefValue r st"
  have f0: "same_frame st s0"
    unfolding s0_def by (rule ctl_eq_same_frame [OF trackRefValue_ctl])
  show "same_frame st st'"
  proof (cases "c_dirty (comps s0 r)")
    case False
    then have "st' = s0"
      using r by (simp add: computed_reader_def computed_get_def Let_def s0_def)
    then show ?thesis using f0 by simp
  next
    case True
    define s2 where "s2 = set_dirty r False s0"
    have f2: "same_frame st s2"
      using f0 by (simp add: same_frame_def s2_def)
    have ok2: "stack_ok s2"
      by (rule same_frame_stack_ok [OF ok f2])
    obtain x where x: "call (CallRun (c_effect (comps s0 r))) s2 = Some (res, x)"
      and st': "st' = (case res of Inl err \<Rightarrow> x | Inr v \<Rightarrow> set_value r v x)"
      using r True
      by (auto simp: computed_reader_def computed_get_def Let_def s0_def [symmetric]
          s2_def [symmetric] split: option.splits sum.splits)
    have "same_frame s2 x"
      using c ok2 x by (rule callee_okD)
    then have "same_frame s2 st'"
      unfolding st' by (simp add: same_frame_def split: sum.splits)
    with f2 show ?thesis by (rule same_frame_trans)
  qed
qed











text \<open>
  With a plain effect downstream that reads the computed, the trigger reaches the
  scheduler, the scheduler marks the computed dirty and re-runs the downstream effect,
  and that effect's read recomputes: one more invocation of the getter, made on demand,
  and none by the reads that follow. With a getter that has a nested effect assign to a
  slot the getter has read, the scheduler runs during the getter's own run and the
  computed stays dirty: each read is then a read after a dependency change.
\<close>

lemma computed_downstream_example:
  "downstream_scenario = Some ([CallScheduler 0], (1, 1, False), (2, 2, False), 2)"
  by code_simp

lemma computed_nested_writer_example:
  "map_option (\<lambda>(r, s). (r, fnCalls s 0, c_dirty (comps s 0)))
     (computed_reads (rcall 5 nested_writer_env) 0 3 computed_example)
   = Some (Inr [VUndefined, VUndefined, VUndefined], 3, True)"
  by code_simp


section \<open>The scheduler\<close>

text \<open>
  scheduler.ts keeps three queues of jobs. A job is a function object with optional
  fields; its identity is an index, its fields live in a table, and what it does when
  called is the list of calls it makes to the scheduler on that invocation, which may
  end in a throw: \<open>body j st\<close> for an invocation that starts in the state \<open>st\<close>, whose
  trace is the history so far. The calls are \<open>queueJob\<close>, \<open>queuePreFlushCb\<close>,
  \<open>queuePostFlushCb\<close>, \<open>invalidateJob\<close> and clearing a job's \<open>active\<close> flag, as unmounting
  its component does; a job that itself calls \<open>flushPreFlushCbs\<close> or \<open>flushPostFlushCbs\<close> is
  outside this set. \<open>trace\<close> is not a field of the source: it records the jobs the flush
  invokes, the warnings and the flags cleared. \<open>queueFlush\<close> only raises \<open>isFlushPending\<close>:
  the microtask that then calls \<open>flushJobs\<close> is the caller of \<open>flushJobs\<close> here.
\<close>

type_synonym jid = nat

record job =
  job_id :: "nat option"
  job_active :: "bool option"
  job_allowRecurse :: bool

datatype saction =
    QueueJob jid
  | QueuePreFlushCb jid
  | QueuePostFlushCb jid
  | QueuePostFlushCbs "jid list"
  | InvalidateJob jid
  | Deactivate jid
  | ThrowError

datatype sevent = RunPre jid | RunJob jid | RunPost jid | WarnRecursive jid | Stopped jid

record sched =
  queue :: "jid list"
  flushIndex :: nat
  isFlushing :: bool
  isFlushPending :: bool
  pendingPreFlushCbs :: "jid list"
  activePreFlushCbs :: "jid list option"
  preFlushIndex :: nat
  pendingPostFlushCbs :: "jid list"
  activePostFlushCbs :: "jid list option"
  postFlushIndex :: nat
  currentPreFlushParentJob :: "jid option"
  jobs :: "jid \<Rightarrow> job"
  trace :: "sevent list"

definition RECURSION_LIMIT :: nat where
  "RECURSION_LIMIT = 100"

definition getId :: "sched \<Rightarrow> jid \<Rightarrow> enat" where
  "getId st j = (case job_id (jobs st j) of None \<Rightarrow> \<infinity> | Some i \<Rightarrow> enat i)"


text \<open>\<open>findInsertionIndex\<close>: the binary search between \<open>start\<close> and \<open>end\<close>.\<close>

function bsearch :: "sched \<Rightarrow> nat \<Rightarrow> nat \<Rightarrow> nat \<Rightarrow> nat" where
  "bsearch st i start end' =
     (if start < end'
      then (let middle = (start + end') div 2
            in if getId st (queue st ! middle) < enat i
               then bsearch st i (middle + 1) end'
               else bsearch st i start middle)
      else start)"
  by pat_completeness auto
termination
  by (relation "measure (\<lambda>(st, i, start, end'). end' - start)") auto

definition findInsertionIndex :: "sched \<Rightarrow> nat \<Rightarrow> nat" where
  "findInsertionIndex st i = bsearch st i (flushIndex st + 1) (length (queue st))"

text \<open>\<open>arr.splice(i, 0, x)\<close> and \<open>arr.splice(i, 1)\<close>; \<open>arr.includes(x, from)\<close>.\<close>

definition splice_in :: "nat \<Rightarrow> 'a \<Rightarrow> 'a list \<Rightarrow> 'a list" where
  "splice_in i x xs = take i xs @ x # drop i xs"

definition splice_out :: "nat \<Rightarrow> 'a list \<Rightarrow> 'a list" where
  "splice_out i xs = take i xs @ drop (Suc i) xs"

definition includes_from :: "'a list \<Rightarrow> 'a \<Rightarrow> nat \<Rightarrow> bool" where
  "includes_from xs x from = (x \<in> set (drop from xs))"

text \<open>\<open>indexOf\<close>: the first index, or \<open>None\<close> for -1.\<close>

fun indexOf :: "'a list \<Rightarrow> 'a \<Rightarrow> nat option" where
  "indexOf [] x = None"
| "indexOf (y # ys) x = (if y = x then Some 0 else map_option Suc (indexOf ys x))"

definition queueFlush :: "sched \<Rightarrow> sched" where
  "queueFlush st = (if \<not> isFlushing st \<and> \<not> isFlushPending st then st\<lparr>isFlushPending := True\<rparr> else st)"

definition queueJob :: "jid \<Rightarrow> sched \<Rightarrow> sched" where
  "queueJob j st =
     (if (queue st = [] \<or>
          \<not> includes_from (queue st) j
              (if isFlushing st \<and> job_allowRecurse (jobs st j) then flushIndex st + 1 else flushIndex st)) \<and>
         Some j \<noteq> currentPreFlushParentJob st
      then queueFlush
             (case job_id (jobs st j) of
                None \<Rightarrow> st\<lparr>queue := queue st @ [j]\<rparr>
              | Some i \<Rightarrow> st\<lparr>queue := splice_in (findInsertionIndex st i) j (queue st)\<rparr>)
      else st)"

definition invalidateJob :: "jid \<Rightarrow> sched \<Rightarrow> sched" where
  "invalidateJob j st =
     (case indexOf (queue st) j of
        None \<Rightarrow> st
      | Some i \<Rightarrow> if flushIndex st < i then st\<lparr>queue := splice_out i (queue st)\<rparr> else st)"

text \<open>\<open>queueCb\<close> for a single callback, and for an array of callbacks.\<close>

definition queueCb_ok :: "sched \<Rightarrow> jid \<Rightarrow> jid list option \<Rightarrow> nat \<Rightarrow> bool" where
  "queueCb_ok st cb activeQueue index =
     (case activeQueue of
        None \<Rightarrow> True
      | Some a \<Rightarrow> \<not> includes_from a cb (if job_allowRecurse (jobs st cb) then index + 1 else index))"

definition queuePreFlushCb :: "jid \<Rightarrow> sched \<Rightarrow> sched" where
  "queuePreFlushCb cb st =
     queueFlush
       (if queueCb_ok st cb (activePreFlushCbs st) (preFlushIndex st)
        then st\<lparr>pendingPreFlushCbs := pendingPreFlushCbs st @ [cb]\<rparr> else st)"

definition queuePostFlushCb :: "jid \<Rightarrow> sched \<Rightarrow> sched" where
  "queuePostFlushCb cb st =
     queueFlush
       (if queueCb_ok st cb (activePostFlushCbs st) (postFlushIndex st)
        then st\<lparr>pendingPostFlushCbs := pendingPostFlushCbs st @ [cb]\<rparr> else st)"

definition queuePostFlushCbs :: "jid list \<Rightarrow> sched \<Rightarrow> sched" where
  "queuePostFlushCbs cbs st = queueFlush (st\<lparr>pendingPostFlushCbs := pendingPostFlushCbs st @ cbs\<rparr>)"

fun exec_action :: "saction \<Rightarrow> sched \<Rightarrow> sched" where
  "exec_action (QueueJob j) st = queueJob j st"
| "exec_action (QueuePreFlushCb j) st = queuePreFlushCb j st"
| "exec_action (QueuePostFlushCb j) st = queuePostFlushCb j st"
| "exec_action (QueuePostFlushCbs js) st = queuePostFlushCbs js st"
| "exec_action (InvalidateJob j) st = invalidateJob j st"
| "exec_action (Deactivate j) st =
     st\<lparr>jobs := (jobs st)(j := (jobs st j)\<lparr>job_active := Some False\<rparr>), trace := trace st @ [Stopped j]\<rparr>"
| "exec_action ThrowError st = st"

text \<open>The calls a job makes, in order, up to a throw: the result says whether it threw.\<close>

fun run_actions :: "saction list \<Rightarrow> sched \<Rightarrow> bool \<times> sched" where
  "run_actions [] st = (False, st)"
| "run_actions (a # acts) st =
     (if a = ThrowError then (True, st) else run_actions acts (exec_action a st))"


definition call_job :: "(jid \<Rightarrow> sched \<Rightarrow> saction list) \<Rightarrow> sevent \<Rightarrow> jid \<Rightarrow> sched \<Rightarrow> bool \<times> sched" where
  "call_job body ev j st =
     run_actions (body j st) (st\<lparr>trace := trace st @ [ev]\<rparr>)"

type_synonym CountMap = "jid \<Rightarrow> nat option"

definition checkRecursiveUpdates :: "CountMap \<Rightarrow> jid \<Rightarrow> bool \<times> CountMap" where
  "checkRecursiveUpdates seen fn =
     (case seen fn of
        None \<Rightarrow> (False, seen(fn \<mapsto> 1))
      | Some count \<Rightarrow>
          if RECURSION_LIMIT < count then (True, seen) else (False, seen(fn \<mapsto> count + 1)))"

text \<open>One iteration of a flush loop on job \<open>j\<close>: under \<open>__DEV__\<close> the recursion check
  may skip the job with a warning; otherwise the job is called. The first component of
  the result says whether the job threw.\<close>

type_synonym fstate = "CountMap \<times> sched"

definition guarded_call ::
  "bool \<Rightarrow> (jid \<Rightarrow> sched \<Rightarrow> saction list) \<Rightarrow> sevent \<Rightarrow> jid \<Rightarrow> fstate \<Rightarrow> bool \<times> fstate" where
  "guarded_call dev body ev j s =
     (if dev
      then (if fst (checkRecursiveUpdates (fst s) j)
            then (False, snd (checkRecursiveUpdates (fst s) j),
                         (snd s)\<lparr>trace := trace (snd s) @ [WarnRecursive j]\<rparr>)
            else (fst (call_job body ev j (snd s)),
                  snd (checkRecursiveUpdates (fst s) j), snd (call_job body ev j (snd s))))
      else (fst (call_job body ev j (snd s)), fst s, snd (call_job body ev j (snd s))))"


















subsection \<open>Lifting an invariant of single calls to a flush\<close>




















subsection \<open>What a call adds to the trace\<close>











subsection \<open>The recursion ceiling\<close>






lemma guarded_call_prod:
  "guarded_call False body ev j s =
     (fst (call_job body ev j (snd s)), fst s, snd (call_job body ev j (snd s)))"
  by (simp add: guarded_call_def)









subsection \<open>Order of the main queue\<close>



































subsection \<open>Stopped jobs\<close>













subsection \<open>The trace only grows\<close>








subsection \<open>Removing a queued job\<close>






subsection \<open>The recursion ceiling of a flush\<close>





subsection \<open>The order of a flush\<close>





end
